theory Spec2Isabelle
  imports Main "HOL-Library.Sublist"
begin

section \<open>JavaScript values and strings\<close>

text \<open>
  A JavaScript string is modelled as a list of 8-bit characters, the code units U+0000 to
  U+00FF; the case conversions \<open>toLowerCase\<close> and \<open>toUpperCase\<close> act on the ASCII
  letters and leave every other character alone.  A property of an object literal may hold
  any primitive value, or be absent (\<open>JUndefined\<close>).
\<close>

datatype jsval = JUndefined | JNull | JBool bool | JNum int | JStr string

datatype js_error = TypeError

definition toLowerChar :: "char \<Rightarrow> char" where
  "toLowerChar c =
     (let n = (of_char c :: nat) in if 65 \<le> n \<and> n \<le> 90 then char_of (n + 32) else c)"

definition toUpperChar :: "char \<Rightarrow> char" where
  "toUpperChar c =
     (let n = (of_char c :: nat) in if 97 \<le> n \<and> n \<le> 122 then char_of (n - 32) else c)"

definition toLowerCase :: "string \<Rightarrow> string" where
  "toLowerCase s = map toLowerChar s"

definition toUpperCase :: "string \<Rightarrow> string" where
  "toUpperCase s = map toUpperChar s"

text \<open>\<open>s.includes(k)\<close> on strings: \<open>k\<close> occurs in \<open>s\<close> as a contiguous run.\<close>

definition includes_str :: "string \<Rightarrow> string \<Rightarrow> bool" where
  "includes_str s k = sublist k s"

text \<open>
  A destructuring default applies exactly when the property is \<open>undefined\<close>;
  \<open>null\<close> and every other value are kept.
\<close>

definition withDefault :: "jsval \<Rightarrow> string \<Rightarrow> jsval" where
  "withDefault v d = (case v of JUndefined \<Rightarrow> JStr d | _ \<Rightarrow> v)"

text \<open>
  The receiver of a \<open>.toLowerCase()\<close> call: a string has the method, on \<open>null\<close> the
  property read throws, and on a boolean or a number the property is not a function.
\<close>

definition stringReceiver :: "jsval \<Rightarrow> js_error + string" where
  "stringReceiver v = (case v of JStr s \<Rightarrow> Inr s | _ \<Rightarrow> Inl TypeError)"

definition bindE :: "'e + 'a \<Rightarrow> ('a \<Rightarrow> 'e + 'b) \<Rightarrow> 'e + 'b" where
  "bindE m f = (case m of Inl e \<Rightarrow> Inl e | Inr x \<Rightarrow> f x)"


section \<open>utils.js: the recent-payload list\<close>

definition MAX_RECENT :: nat where
  "MAX_RECENT = 5"

record recent =
  category :: string
  index :: int
  "value" :: string

text \<open>
  Arrays are objects on a heap: \<open>filter\<close> and \<open>slice\<close> allocate a new array,
  \<open>unshift\<close> updates the array it is called on.  The heap maps references to array
  contents; \<open>nextRef\<close> is the first unused reference.
\<close>

record heap =
  arrays :: "nat \<rightharpoonup> recent list"
  nextRef :: nat

definition alloc :: "recent list \<Rightarrow> heap \<Rightarrow> nat \<times> heap" where
  "alloc xs h = (nextRef h, h\<lparr>arrays := (arrays h)(nextRef h \<mapsto> xs), nextRef := Suc (nextRef h)\<rparr>)"

definition unshift :: "nat \<Rightarrow> recent \<Rightarrow> heap \<Rightarrow> heap" where
  "unshift r x h =
     (case arrays h r of None \<Rightarrow> h | Some xs \<Rightarrow> h\<lparr>arrays := (arrays h)(r \<mapsto> x # xs)\<rparr>)"

text \<open>
  \<open>addToRecentList(recentPayloads, category, index, value)\<close>: the argument is a
  reference; the result is the reference returned and the heap afterwards.  A reference
  that holds no array has no \<open>filter\<close> method.
\<close>

definition addToRecentList ::
    "heap \<Rightarrow> nat \<Rightarrow> string \<Rightarrow> int \<Rightarrow> string \<Rightarrow> js_error + (nat \<times> heap)" where
  "addToRecentList h recentPayloads cat idx val =
     (case arrays h recentPayloads of
        None \<Rightarrow> Inl TypeError
      | Some xs \<Rightarrow>
          (let (result, h1) = alloc (filter (\<lambda>r. \<not> (category r = cat \<and> index r = idx)) xs) h;
               h2 = unshift result \<lparr>category = cat, index = idx, value = val\<rparr> h1
           in case arrays h2 result of
                None \<Rightarrow> Inl TypeError
              | Some ys \<Rightarrow>
                  if length ys > MAX_RECENT then Inr (alloc (take MAX_RECENT ys) h2)
                  else Inr (result, h2)))"

definition key :: "recent \<Rightarrow> string \<times> int" where
  "key r = (category r, index r)"


section \<open>analysis.js: autofill risk of a field\<close>

definition AUTOFILL_KEYWORDS :: "string list" where
  "AUTOFILL_KEYWORDS =
    [''email'', ''e-mail'', ''mail'', ''phone'', ''tel'', ''mobile'', ''cell'', ''fax'',
     ''name'', ''fname'', ''lname'', ''firstname'', ''lastname'', ''first-name'', ''last-name'',
     ''fullname'', ''full-name'', ''nickname'', ''username'', ''user'',
     ''address'', ''street'', ''city'', ''state'', ''province'', ''zip'', ''postal'', ''postcode'',
     ''country'', ''region'', ''apt'', ''suite'', ''building'',
     ''card'', ''credit'', ''ccnum'', ''ccname'', ''cvv'', ''cvc'', ''expiry'', ''expiration'',
     ''company'', ''organization'', ''org'', ''employer'', ''business'',
     ''title'', ''prefix'', ''suffix'', ''birthday'', ''bday'', ''age'', ''gender'', ''sex'',
     ''ssn'', ''social'', ''passport'', ''license'']"

definition AUTOCOMPLETE_VALUES_THAT_TRIGGER :: "string list" where
  "AUTOCOMPLETE_VALUES_THAT_TRIGGER =
    [''on'', ''name'', ''email'', ''username'', ''new-password'', ''current-password'',
     ''organization'', ''organization-title'', ''street-address'', ''address-line1'',
     ''address-line2'', ''address-line3'', ''address-level1'', ''address-level2'',
     ''address-level3'', ''address-level4'', ''country'', ''country-name'', ''postal-code'',
     ''cc-name'', ''cc-given-name'', ''cc-additional-name'', ''cc-family-name'', ''cc-number'',
     ''cc-exp'', ''cc-exp-month'', ''cc-exp-year'', ''cc-csc'', ''cc-type'',
     ''transaction-currency'', ''transaction-amount'', ''language'', ''bday'', ''bday-day'',
     ''bday-month'', ''bday-year'', ''sex'', ''tel'', ''tel-country-code'', ''tel-national'',
     ''tel-area-code'', ''tel-local'', ''tel-extension'', ''impp'', ''url'', ''photo'',
     ''given-name'', ''additional-name'', ''family-name'', ''honorific-prefix'',
     ''honorific-suffix'', ''nickname'']"

definition SAFE_AUTOCOMPLETE_VALUES :: "string list" where
  "SAFE_AUTOCOMPLETE_VALUES = [''off'', ''one-time-code'', ''nope'', ''false'', ''disabled'']"

definition SKIP_INPUT_TYPES :: "string list" where
  "SKIP_INPUT_TYPES =
    [''hidden'', ''submit'', ''button'', ''reset'', ''image'', ''file'', ''checkbox'', ''radio'']"


datatype risk_level = Low | Medium | High

datatype risk_type = Info | Warning | Error

record risk =
  risk_type :: risk_type
  message :: string

record attributes =
  attr_tagName :: string
  attr_type :: string
  attr_name :: string
  attr_id :: string
  attr_autocomplete :: string
  attr_placeholder :: string

record verdict =
  riskLevel :: risk_level
  risks :: "risk list"
  attributes :: attributes

text \<open>The argument object of \<open>analyzeFieldAttributes\<close>; each property holds any value.\<close>

record attrs =
  tagName :: jsval
  type :: jsval
  name :: jsval
  id_attr :: jsval
  autocomplete :: jsval
  placeholder :: jsval
  labelText :: jsval

text \<open>
  The function keeps two mutable locals, the array \<open>risks\<close> and \<open>riskLevel\<close>; each
  rule below takes and returns the pair.
\<close>

type_synonym findings = "risk list \<times> risk_level"

definition missingAutocompleteWarning :: risk where
  "missingAutocompleteWarning =
     \<lparr>risk_type = Warning,
      message = ''No autocomplete attribute - Chrome may use form history''\<rparr>"

definition formHistoryWarning :: risk where
  "formHistoryWarning =
     \<lparr>risk_type = Warning,
      message = ''Has name attribute without autocomplete=\"off\" - Chrome saves form history for this field''\<rparr>"

definition inputTypeError :: "string \<Rightarrow> risk" where
  "inputTypeError ty =
     \<lparr>risk_type = Error,
      message = ''type=\"'' @ ty @ ''\" - This input type triggers autofill''\<rparr>"

definition checkAutocomplete :: "string \<Rightarrow> findings \<Rightarrow> findings" where
  "checkAutocomplete ac f =
     (let normalizedAutocomplete = toLowerCase ac in
      if normalizedAutocomplete = [] then (fst f @ [missingAutocompleteWarning], Medium)
      else if normalizedAutocomplete \<in> set SAFE_AUTOCOMPLETE_VALUES then
        (fst f @ [\<lparr>risk_type = Info,
                   message = ''autocomplete=\"'' @ ac @ ''\" - Should prevent autofill''\<rparr>], snd f)
      else if normalizedAutocomplete \<in> set AUTOCOMPLETE_VALUES_THAT_TRIGGER then
        (fst f @ [\<lparr>risk_type = Error,
                   message = ''autocomplete=\"'' @ ac @ ''\" - WILL trigger autofill''\<rparr>], High)
      else f)"

definition checkInputType :: "string \<Rightarrow> findings \<Rightarrow> findings" where
  "checkInputType ty f =
     (let normalizedType = toLowerCase ty in
      if normalizedType \<in> set [''email'', ''tel'', ''url''] then
        (fst f @ [inputTypeError ty], High)
      else if normalizedType = ''password'' then
        (fst f @ [\<lparr>risk_type = Warning,
                   message = ''type=\"password\" - May trigger password manager''\<rparr>],
         if snd f \<noteq> High then Medium else snd f)
      else f)"

text \<open>
  The four keyword loops: the first keyword of the list that the lower-cased text
  includes adds one finding, and the loop breaks.
\<close>

definition firstKeyword :: "string \<Rightarrow> string option" where
  "firstKeyword normalized = find (\<lambda>keyword. includes_str normalized keyword) AUTOFILL_KEYWORDS"

definition checkName :: "string \<Rightarrow> findings \<Rightarrow> findings" where
  "checkName nm f =
     (case firstKeyword (toLowerCase nm) of
        None \<Rightarrow> f
      | Some keyword \<Rightarrow>
          (fst f @ [\<lparr>risk_type = Warning,
                     message = ''name=\"'' @ nm @ ''\" contains \"'' @ keyword @
                               ''\" - May trigger form history''\<rparr>],
           if snd f = Low then Medium else snd f))"

definition checkId :: "string \<Rightarrow> findings \<Rightarrow> findings" where
  "checkId i f =
     (case firstKeyword (toLowerCase i) of
        None \<Rightarrow> f
      | Some keyword \<Rightarrow>
          (fst f @ [\<lparr>risk_type = Warning,
                     message = ''id=\"'' @ i @ ''\" contains \"'' @ keyword @
                               ''\" - May trigger form history''\<rparr>],
           if snd f = Low then Medium else snd f))"

definition checkPlaceholder :: "string \<Rightarrow> findings \<Rightarrow> findings" where
  "checkPlaceholder p f =
     (case firstKeyword (toLowerCase p) of
        None \<Rightarrow> f
      | Some keyword \<Rightarrow>
          (fst f @ [\<lparr>risk_type = Info,
                     message = ''Placeholder contains \"'' @ keyword @
                               ''\" - Minor autofill signal''\<rparr>], snd f))"

definition checkLabelText :: "string \<Rightarrow> findings \<Rightarrow> findings" where
  "checkLabelText l f =
     (case firstKeyword (toLowerCase l) of
        None \<Rightarrow> f
      | Some keyword \<Rightarrow>
          (fst f @ [\<lparr>risk_type = Info,
                     message = ''Label contains \"'' @ keyword @
                               ''\" - Chrome may use this as context''\<rparr>], snd f))"

definition formHistoryCondition :: "string \<Rightarrow> string \<Rightarrow> bool" where
  "formHistoryCondition nm ac =
     (toLowerCase nm \<noteq> [] \<and> toLowerCase ac \<noteq> [] \<and>
      toLowerCase ac \<notin> set SAFE_AUTOCOMPLETE_VALUES)"

definition checkFormHistory :: "string \<Rightarrow> string \<Rightarrow> findings \<Rightarrow> findings" where
  "checkFormHistory nm ac f =
     (if formHistoryCondition nm ac
      then (fst f @ [formHistoryWarning], if snd f = Low then Medium else snd f)
      else f)"

text \<open>The body of \<open>analyzeFieldAttributes\<close> once the seven locals are strings.\<close>

definition analyzeStrings ::
    "string \<Rightarrow> string \<Rightarrow> string \<Rightarrow> string \<Rightarrow> string \<Rightarrow> string \<Rightarrow> string \<Rightarrow> verdict option" where
  "analyzeStrings tg ty nm i ac p l =
     (if toLowerCase ty \<in> set SKIP_INPUT_TYPES then None
      else if toLowerCase tg = ''select'' then None
      else
        (let f = checkFormHistory nm ac
                   (checkLabelText l (checkPlaceholder p (checkId i (checkName nm
                      (checkInputType ty (checkAutocomplete ac ([], Low)))))))
         in Some \<lparr>riskLevel = snd f, risks = fst f,
                  attributes = \<lparr>attr_tagName = toLowerCase tg, attr_type = toLowerCase ty,
                                attr_name = nm, attr_id = i, attr_autocomplete = ac,
                                attr_placeholder = p\<rparr>\<rparr>))"

text \<open>
  \<open>analyzeFieldAttributes(attrs)\<close>: the destructuring with its defaults, the seven
  \<open>.toLowerCase()\<close> calls in the order of the source (each throws on a value that is
  not a string), then the rules.  \<open>Inr None\<close> is the returned \<open>null\<close>.
\<close>

definition analyzeFieldAttributes :: "attrs \<Rightarrow> js_error + verdict option" where
  "analyzeFieldAttributes a =
     bindE (stringReceiver (withDefault (tagName a) [])) (\<lambda>tg.
     bindE (stringReceiver (withDefault (type a) ''text'')) (\<lambda>ty.
     bindE (stringReceiver (withDefault (name a) [])) (\<lambda>nm.
     bindE (stringReceiver (withDefault (id_attr a) [])) (\<lambda>i.
     bindE (stringReceiver (withDefault (autocomplete a) [])) (\<lambda>ac.
     bindE (stringReceiver (withDefault (placeholder a) [])) (\<lambda>p.
     bindE (stringReceiver (withDefault (labelText a) [])) (\<lambda>l.
       Inr (analyzeStrings tg ty nm i ac p l))))))))"

text \<open>A property that is absent or holds a string.\<close>

definition absentOrString :: "jsval \<Rightarrow> bool" where
  "absentOrString v = (case v of JUndefined \<Rightarrow> True | JStr s \<Rightarrow> True | _ \<Rightarrow> False)"

definition stringAttrs :: "attrs \<Rightarrow> bool" where
  "stringAttrs a =
     (absentOrString (tagName a) \<and> absentOrString (type a) \<and> absentOrString (name a) \<and>
      absentOrString (id_attr a) \<and> absentOrString (autocomplete a) \<and>
      absentOrString (placeholder a) \<and> absentOrString (labelText a))"

text \<open>The string a property stands for: its own, or the default of the destructuring.\<close>

definition stringOr :: "string \<Rightarrow> jsval \<Rightarrow> string" where
  "stringOr d v = (case v of JStr s \<Rightarrow> s | _ \<Rightarrow> d)"

text \<open>The object with every absent property written out as its default.\<close>

definition withDefaults :: "attrs \<Rightarrow> attrs" where
  "withDefaults a =
     \<lparr>tagName = withDefault (tagName a) [], type = withDefault (type a) ''text'',
      name = withDefault (name a) [], id_attr = withDefault (id_attr a) [],
      autocomplete = withDefault (autocomplete a) [],
      placeholder = withDefault (placeholder a) [],
      labelText = withDefault (labelText a) []\<rparr>"


section \<open>The document\<close>

text \<open>
  A DOM node is a text node or an element; an element has an identity, a tag name, a class
  list, a title and child nodes.
\<close>

datatype node = TextNode string | Element nat string "string list" string "node list"

text \<open>Identity and class list of every element of a subtree, in document order.\<close>

fun elements :: "node \<Rightarrow> (nat \<times> string list) list" where
  "elements (TextNode s) = []"
| "elements (Element i tg cl ti cs) = (i, cl) # concat (map elements cs)"

definition elementsOf :: "node list \<Rightarrow> (nat \<times> string list) list" where
  "elementsOf ns = concat (map elements ns)"

text \<open>\<open>querySelectorAll('.c')\<close>: the elements whose class list contains \<open>c\<close>.\<close>

definition querySelectorAll :: "string \<Rightarrow> node list \<Rightarrow> (nat \<times> string list) list" where
  "querySelectorAll c ns = filter (\<lambda>e. c \<in> set (snd e)) (elementsOf ns)"

fun hasId :: "nat \<Rightarrow> node \<Rightarrow> bool" where
  "hasId i (TextNode s) = False"
| "hasId i (Element j tg cl ti cs) = (i = j)"

text \<open>\<open>el.remove()\<close>: the element leaves the child list of its parent, with its subtree.\<close>

fun removeFrom :: "nat \<Rightarrow> node \<Rightarrow> node" where
  "removeFrom i (TextNode s) = TextNode s"
| "removeFrom i (Element j tg cl ti cs) =
     Element j tg cl ti (map (removeFrom i) (filter (\<lambda>c. \<not> hasId i c) cs))"

definition removeElement :: "nat \<Rightarrow> node list \<Rightarrow> node list" where
  "removeElement i ns = map (removeFrom i) (filter (\<lambda>c. \<not> hasId i c) ns)"

section \<open>content.js: overlays and their counters\<close>

record fieldStats =
  high :: int
  medium :: int
  low :: int
  total :: int

datatype message = UpdateBadge fieldStats

text \<open>
  The state of the content script and of the page it runs in: the counters, the two weak
  maps from a field to its overlay and to its tooltip (elements are known by their
  identity), the children of \<open>document.body\<close>, the next unused element identity, and
  the messages handed to \<open>chrome.runtime.sendMessage\<close> so far.
\<close>

record content_state =
  fieldStats :: fieldStats
  overlayMap :: "nat \<rightharpoonup> nat"
  tooltipMap :: "nat \<rightharpoonup> nat"
  body :: "node list"
  nextId :: nat
  sent :: "message list"

text \<open>\<open>updateBadge()\<close> sends the counters; a failure to deliver is ignored.\<close>

definition updateBadge :: "content_state \<Rightarrow> content_state" where
  "updateBadge st = st\<lparr>sent := sent st @ [UpdateBadge (fieldStats st)]\<rparr>"

text \<open>The body of the \<open>forEach\<close> in \<open>reconcileStats\<close>, for one overlay element.\<close>

definition countOverlay :: "nat \<times> string list \<Rightarrow> fieldStats \<Rightarrow> fieldStats" where
  "countOverlay overlay actual =
     (let a = (if ''autofill-risk-high'' \<in> set (snd overlay) then actual\<lparr>high := high actual + 1\<rparr>
               else if ''autofill-risk-medium'' \<in> set (snd overlay)
                 then actual\<lparr>medium := medium actual + 1\<rparr>
               else if ''autofill-risk-low'' \<in> set (snd overlay)
                 then actual\<lparr>low := low actual + 1\<rparr>
               else actual)
      in a\<lparr>total := total a + 1\<rparr>)"

definition reconcileStats :: "content_state \<Rightarrow> content_state" where
  "reconcileStats st =
     (let actual = fold countOverlay (querySelectorAll ''autofill-detector-overlay'' (body st))
                     \<lparr>high = 0, medium = 0, low = 0, total = 0\<rparr>
      in if high (fieldStats st) \<noteq> high actual \<or> medium (fieldStats st) \<noteq> medium actual \<or>
            low (fieldStats st) \<noteq> low actual \<or> total (fieldStats st) \<noteq> total actual
         then updateBadge (st\<lparr>fieldStats := actual\<rparr>)
         else st)"

definition levelName :: "risk_level \<Rightarrow> string" where
  "levelName l = (case l of Low \<Rightarrow> ''low'' | Medium \<Rightarrow> ''medium'' | High \<Rightarrow> ''high'')"

text \<open>
  The argument of \<open>createOverlay\<close>: the verdict of the analysis together with the
  field it is about.
\<close>

record analysis =
  element :: nat
  verdict :: verdict

text \<open>
  \<open>createOverlay(analysis)\<close>: an overlay the map records for the field is removed from
  the document; then the overlay, its badge and its tooltip are created, the badge becomes
  the child of the overlay, the tooltip is recorded for the field, the overlay is appended
  to the body and recorded for the field.  The result is the overlay.  Position and style
  of the overlay, the markup of the tooltip and the hover listeners of the badge change
  neither the children of the body nor the maps when the overlay is created, and are left
  out.
\<close>

definition createOverlay :: "analysis \<Rightarrow> content_state \<Rightarrow> nat \<times> content_state" where
  "createOverlay a st =
     (let lvl = levelName (riskLevel (verdict a));
          body1 = (case overlayMap st (element a) of
                     Some existingOverlay \<Rightarrow> removeElement existingOverlay (body st)
                   | None \<Rightarrow> body st);
          overlay = nextId st;
          badge = nextId st + 1;
          tooltip = nextId st + 2;
          overlayNode =
            Element overlay ''div'' [''autofill-detector-overlay'', ''autofill-risk-'' @ lvl] []
              [Element badge ''div'' [''autofill-detector-badge'', ''autofill-badge-'' @ lvl] []
                 [TextNode (toUpperCase lvl)]]
      in (overlay,
          st\<lparr>tooltipMap := (tooltipMap st)(element a \<mapsto> tooltip),
             body := body1 @ [overlayNode],
             overlayMap := (overlayMap st)(element a \<mapsto> overlay),
             nextId := nextId st + 3\<rparr>))"

text \<open>
  The overlays of the document, and those of them that \<open>overlayMap\<close> records for a
  field.  The invariant: overlay identities are distinct, every overlay of the document is
  the one recorded for some field, no overlay is recorded for two fields, and identities in
  use are below \<open>nextId\<close>.
\<close>

definition overlayIds :: "node list \<Rightarrow> nat list" where
  "overlayIds ns = map fst (querySelectorAll ''autofill-detector-overlay'' ns)"

definition overlaysOfField :: "content_state \<Rightarrow> nat \<Rightarrow> nat list" where
  "overlaysOfField st e = filter (\<lambda>ov. overlayMap st e = Some ov) (overlayIds (body st))"

definition overlayInvariant :: "content_state \<Rightarrow> bool" where
  "overlayInvariant st =
     (distinct (overlayIds (body st)) \<and>
      (\<forall>ov \<in> set (overlayIds (body st)). \<exists>e. overlayMap st e = Some ov) \<and>
      inj_on (overlayMap st) (dom (overlayMap st)) \<and>
      (\<forall>ov \<in> ran (overlayMap st). ov < nextId st) \<and>
      (\<forall>i \<in> fst ` set (elementsOf (body st)). i < nextId st))"


section \<open>content.js: injecting a payload into the focused field\<close>













section \<open>wordscanner.js: highlighting forbidden words\<close>

text \<open>
  The pattern is \<open>new RegExp('\\b(' + escapedWords.join('|') + ')\\b', 'gi')\<close>.  Every
  character with a meaning in a regular expression is escaped, so each alternative matches
  its word literally; the model keeps the word list and gives the pattern its meaning.
\<close>

text \<open>\<open>\w\<close>: a letter, a digit or the underscore.\<close>

definition isWordChar :: "char \<Rightarrow> bool" where
  "isWordChar c =
     (let n = (of_char c :: nat) in
      (65 \<le> n \<and> n \<le> 90) \<or> (97 \<le> n \<and> n \<le> 122) \<or> (48 \<le> n \<and> n \<le> 57) \<or> n = 95)"

text \<open>
  \<open>\b\<close> at index \<open>i\<close>: of the character before the index and the character at it,
  exactly one is a word character; beyond either end of the text there is none.
\<close>

definition isWordBoundary :: "string \<Rightarrow> nat \<Rightarrow> bool" where
  "isWordBoundary text i =
     ((0 < i \<and> i \<le> length text \<and> isWordChar (text ! (i - 1))) \<noteq>
      (i < length text \<and> isWordChar (text ! i)))"

text \<open>\<open>text.slice(a, b)\<close> for \<open>a \<le> b\<close>.\<close>

definition slice :: "string \<Rightarrow> nat \<Rightarrow> nat \<Rightarrow> string" where
  "slice text a b = take (b - a) (drop a text)"

text \<open>
  How the \<open>i\<close> flag (without the \<open>u\<close> flag) compares two characters: by the code
  unit of their upper-case form, where that form is a single code unit; a character
  outside ASCII whose upper-case form is in ASCII counts as itself.  On the code units
  U+0000 to U+00FF: the letters \<open>a\<close> to \<open>z\<close>, and the letters U+00E0 to U+00FE other
  than the division sign U+00F7, go to the code unit 32 below; the micro sign U+00B5 goes
  to U+039C and the letter U+00FF to U+0178; the sharp s U+00DF, whose upper-case form has
  two code units, and every other character stay.
\<close>

definition canonicalize :: "char \<Rightarrow> nat" where
  "canonicalize c =
     (let n = (of_char c :: nat) in
      if 97 \<le> n \<and> n \<le> 122 then n - 32
      else if 224 \<le> n \<and> n \<le> 254 \<and> n \<noteq> 247 then n - 32
      else if n = 181 then 924
      else if n = 255 then 376
      else n)"

text \<open>The word occurs at index \<open>i\<close>, letter case ignored (the \<open>i\<close> flag).\<close>

definition occursAt :: "string \<Rightarrow> nat \<Rightarrow> string \<Rightarrow> bool" where
  "occursAt text i w =
     (i + length w \<le> length text \<and>
      map canonicalize (slice text i (i + length w)) = map canonicalize w)"

text \<open>
  The alternatives of the group: the words; joining no words gives the empty string, and
  the group \<open>()\<close> has the empty alternative.  (Both scans return before they build a
  pattern when the list is empty.)
\<close>

definition alternatives :: "string list \<Rightarrow> string list" where
  "alternatives words = (if words = [] then [[]] else words)"

text \<open>
  A match of the whole pattern starting at index \<open>i\<close>: a boundary, then the first
  alternative in list order that occurs there and is followed by a boundary.  The result
  is the end index.
\<close>

definition matchAt :: "string list \<Rightarrow> string \<Rightarrow> nat \<Rightarrow> nat option" where
  "matchAt words text i =
     (if isWordBoundary text i
      then map_option (\<lambda>w. i + length w)
             (find (\<lambda>w. occursAt text i w \<and> isWordBoundary text (i + length w))
                (alternatives words))
      else None)"

text \<open>
  \<open>pattern.exec(text)\<close> with the \<open>g\<close> flag: the leftmost match that starts at
  \<open>lastIndex\<close> or later, as start and end index; the end index becomes the new
  \<open>lastIndex\<close>.
\<close>

definition exec :: "string list \<Rightarrow> string \<Rightarrow> nat \<Rightarrow> (nat \<times> nat) option" where
  "exec words text lastIndex =
     (case find (\<lambda>i. matchAt words text i \<noteq> None) [lastIndex ..< Suc (length text)] of
        None \<Rightarrow> None
      | Some i \<Rightarrow> map_option (Pair i) (matchAt words text i))"

text \<open>
  The state of the scanner: the set \<open>wordScannerHighlights\<close> of the highlight elements
  created, in the order of insertion, and the next unused element identity.
\<close>

record scanner_state =
  wordScannerHighlights :: "nat list"
  freshId :: nat

text \<open>The highlight element for the matched text \<open>m\<close>.\<close>

definition highlightSpan :: "nat \<Rightarrow> string \<Rightarrow> node" where
  "highlightSpan i m =
     Element i ''span'' [''word-scanner-highlight''] (''Forbidden word: \"'' @ m @ ''\"'')
       [TextNode m]"

text \<open>
  The \<open>while\<close> loop of \<open>highlightForbiddenWordsInNode\<close>, with its variables
  \<open>pattern.lastIndex\<close>, \<open>lastIndex\<close> and \<open>fragments\<close> and the set of highlights.  The
  loop need not end; \<open>None\<close> is the run that never leaves it.
\<close>

partial_function (option) highlightLoop ::
    "string list \<Rightarrow> string \<Rightarrow> nat \<Rightarrow> nat \<Rightarrow> node list \<Rightarrow> scanner_state \<Rightarrow>
     (node list \<times> nat \<times> scanner_state) option" where
  "highlightLoop words text patternLastIndex lastIndex fragments st =
     (case exec words text patternLastIndex of
        None \<Rightarrow> Some (fragments, lastIndex, st)
      | Some (start, e) \<Rightarrow>
          highlightLoop words text e e
            (fragments @
             (if start > lastIndex then [TextNode (slice text lastIndex start)] else []) @
             [highlightSpan (freshId st) (slice text start e)])
            (st\<lparr>wordScannerHighlights := wordScannerHighlights st @ [freshId st],
                freshId := Suc (freshId st)\<rparr>))"

declare highlightLoop.simps [code]

text \<open>
  \<open>highlightForbiddenWordsInNode(textNode, pattern)\<close>.  The text node is given with the
  siblings preceding and following it in its parent; the result is the child list of the parent
  afterwards.
\<close>

definition highlightForbiddenWordsInNode ::
    "string list \<Rightarrow> node list \<Rightarrow> string \<Rightarrow> node list \<Rightarrow> scanner_state \<Rightarrow>
     (node list \<times> scanner_state) option" where
  "highlightForbiddenWordsInNode words preceding text following st =
     (case highlightLoop words text 0 0 [] st of
        None \<Rightarrow> None
      | Some (fragments, lastIndex, st') \<Rightarrow>
          (let fragments' =
                 fragments @
                 (if lastIndex < length text then [TextNode (slice text lastIndex (length text))]
                  else [])
           in Some (if fragments' \<noteq> [] then preceding @ fragments' @ following
                    else preceding @ [TextNode text] @ following, st')))"

fun textContent :: "node \<Rightarrow> string" where
  "textContent (TextNode s) = s"
| "textContent (Element i tg cl ti cs) = concat (map textContent cs)"

text \<open>\<open>el.parentNode.replaceChild(document.createTextNode(el.textContent), el)\<close>.\<close>

fun replaceIn :: "nat \<Rightarrow> node \<Rightarrow> node" where
  "replaceIn i (TextNode s) = TextNode s"
| "replaceIn i (Element j tg cl ti cs) =
     (if i = j then TextNode (textContent (Element j tg cl ti cs))
      else Element j tg cl ti (map (replaceIn i) cs))"

definition replaceByText :: "nat \<Rightarrow> node list \<Rightarrow> node list" where
  "replaceByText i ns = map (replaceIn i) ns"

text \<open>
  \<open>removeWordHighlights()\<close> on the children of a container: first the tracked
  highlights, then every element that still has the highlight class.
\<close>

definition removeWordHighlights :: "node list \<Rightarrow> scanner_state \<Rightarrow> node list \<times> scanner_state" where
  "removeWordHighlights children st =
     (let c1 = fold replaceByText (wordScannerHighlights st) children;
          c2 = fold replaceByText (map fst (querySelectorAll ''word-scanner-highlight'' c1)) c1
      in (c2, st\<lparr>wordScannerHighlights := []\<rparr>))"

text \<open>
  Where the highlights of a child list lie in its text: start and end offset of every
  highlight element, the list starting at offset \<open>k\<close>.
\<close>

fun highlightRuns :: "nat \<Rightarrow> node list \<Rightarrow> (nat \<times> nat) list" where
  "highlightRuns k [] = []"
| "highlightRuns k (TextNode s # ns) = highlightRuns (k + length s) ns"
| "highlightRuns k (Element i tg cl ti cs # ns) =
     (if ''word-scanner-highlight'' \<in> set cl
      then [(k, k + length (concat (map textContent cs)))] else []) @
     highlightRuns (k + length (concat (map textContent cs))) ns"

text \<open>
  An occurrence of a listed word between offsets \<open>s\<close> and \<open>e\<close> of the text, letter
  case ignored, with a word boundary at both ends.
\<close>

definition wholeWordOccurrence :: "string list \<Rightarrow> string \<Rightarrow> nat \<Rightarrow> nat \<Rightarrow> bool" where
  "wholeWordOccurrence words text s e =
     (isWordBoundary text s \<and> isWordBoundary text e \<and>
      (\<exists>w \<in> set words. occursAt text s w \<and> e = s + length w))"

text \<open>
  An occurrence of a listed word, letter case ignored, with no word character right before
  it and none right after it.
\<close>

definition standaloneOccurrence :: "string list \<Rightarrow> string \<Rightarrow> nat \<Rightarrow> nat \<Rightarrow> bool" where
  "standaloneOccurrence words text s e =
     (\<exists>w \<in> set words. occursAt text s w \<and> e = s + length w \<and>
        \<not> (0 < s \<and> isWordChar (text ! (s - 1))) \<and>
        \<not> (e < length text \<and> isWordChar (text ! e)))"

text \<open>
  The invariant of the loop when \<open>pattern.lastIndex = lastIndex = p\<close>: the fragments
  spell the first \<open>p\<close> characters of the text; every highlight so far is a whole-word
  occurrence that ends at or before \<open>p\<close>; the highlights are in increasing order and
  disjoint; and every whole-word occurrence that starts before \<open>p\<close> starts inside one
  of them.
\<close>

definition scanInvariant :: "string list \<Rightarrow> string \<Rightarrow> nat \<Rightarrow> node list \<Rightarrow> bool" where
  "scanInvariant words text p frags =
     (p \<le> length text \<and>
      concat (map textContent frags) = take p text \<and>
      (\<forall>r \<in> set (highlightRuns 0 frags).
         fst r < snd r \<and> snd r \<le> p \<and> wholeWordOccurrence words text (fst r) (snd r)) \<and>
      sorted_wrt (\<lambda>a b. snd a \<le> fst b) (highlightRuns 0 frags) \<and>
      (\<forall>i e. i < p \<longrightarrow> wholeWordOccurrence words text i e \<longrightarrow>
         (\<exists>r \<in> set (highlightRuns 0 frags). fst r \<le> i \<and> i < snd r)))"


section \<open>Properties of the recent-payload list\<close>

lemma addToRecentList_eq:
  assumes "arrays h p = Some xs"
  shows "addToRecentList h p cat idx val =
     (let ys = \<lparr>category = cat, index = idx, value = val\<rparr> #
               filter (\<lambda>r. \<not> (category r = cat \<and> index r = idx)) xs;
          h2 = h\<lparr>arrays := (arrays h)(nextRef h \<mapsto> ys), nextRef := Suc (nextRef h)\<rparr>
      in if length ys > 5
         then Inr (Suc (nextRef h),
                   h2\<lparr>arrays := (arrays h2)(Suc (nextRef h) \<mapsto> take 5 ys),
                      nextRef := Suc (Suc (nextRef h))\<rparr>)
         else Inr (nextRef h, h2))"
  using assms
  by (simp add: addToRecentList_def alloc_def unshift_def MAX_RECENT_def Let_def)

text \<open>
  Claim C10.  Let the argument be an array of the heap (its reference below \<open>nextRef\<close>,
  as every reference in use is) in which no two entries have the same category and index.
  Then \<open>addToRecentList\<close> returns an array of at most \<open>MAX_RECENT = 5\<close> entries whose
  first entry is the new \<open>{category, index, value}\<close>, in which again no two entries have
  the same category and index; and the argument array holds afterwards what it held
  before.
\<close>

theorem addToRecentList_invariant:
  assumes "arrays h p = Some xs" and "p < nextRef h" and "distinct (map key xs)"
  shows "\<exists>r h' ys. addToRecentList h p cat idx val = Inr (r, h') \<and>
           arrays h' r = Some ys \<and> length ys \<le> MAX_RECENT \<and> length ys \<le> 5 \<and> ys \<noteq> [] \<and>
           hd ys = \<lparr>category = cat, index = idx, value = val\<rparr> \<and>
           distinct (map key ys) \<and> arrays h' p = Some xs"
proof -
  define new where "new = \<lparr>category = cat, index = idx, value = val\<rparr>"
  define ys where "ys = new # filter (\<lambda>r. \<not> (category r = cat \<and> index r = idx)) xs"
  have d: "distinct (map key ys)"
    using assms(3) by (auto simp: ys_def new_def distinct_map_filter key_def)
  have d5: "distinct (map key (take 5 ys))"
    using d by (simp add: take_map [symmetric])
  have hd5: "hd (take 5 ys) = new" "take 5 ys \<noteq> []" "hd ys = new" "ys \<noteq> []"
    by (simp_all add: ys_def)
  have pne: "p \<noteq> nextRef h" "p \<noteq> Suc (nextRef h)"
    using assms(2) by simp_all
  note eq = addToRecentList_eq [OF assms(1), of cat idx val, folded new_def, folded ys_def]
  show ?thesis
  proof (cases "length ys > 5")
    case True
    have "addToRecentList h p cat idx val =
            Inr (Suc (nextRef h),
                 \<lparr>arrays = ((arrays h)(nextRef h \<mapsto> ys))(Suc (nextRef h) \<mapsto> take 5 ys),
                  nextRef = Suc (Suc (nextRef h))\<rparr>)"
      using True eq by (simp add: Let_def)
    then show ?thesis
      using d5 hd5 pne assms(1) by (simp add: MAX_RECENT_def new_def)
  next
    case False
    have "addToRecentList h p cat idx val =
            Inr (nextRef h,
                 \<lparr>arrays = (arrays h)(nextRef h \<mapsto> ys), nextRef = Suc (nextRef h)\<rparr>)"
      using False eq by (simp add: Let_def)
    then show ?thesis
      using d hd5 pne assms(1) False by (simp add: MAX_RECENT_def new_def)
  qed
qed

theorem addToRecentList_invariant_witness:
  "arrays \<lparr>arrays = [0 \<mapsto> [\<lparr>category = ''Emails'', index = 0, value = ''first@example.com''\<rparr>,
                            \<lparr>category = ''Emails'', index = 1, value = ''second@example.com''\<rparr>]],
           nextRef = 1\<rparr> 0 =
     Some [\<lparr>category = ''Emails'', index = 0, value = ''first@example.com''\<rparr>,
           \<lparr>category = ''Emails'', index = 1, value = ''second@example.com''\<rparr>] \<and>
   (0::nat) < nextRef \<lparr>arrays = [0 \<mapsto> [\<lparr>category = ''Emails'', index = 0, value = ''first@example.com''\<rparr>,
                            \<lparr>category = ''Emails'', index = 1, value = ''second@example.com''\<rparr>]],
           nextRef = 1\<rparr> \<and>
   distinct (map key [\<lparr>category = ''Emails'', index = 0, value = ''first@example.com''\<rparr>,
                      \<lparr>category = ''Emails'', index = 1, value = ''second@example.com''\<rparr>]) \<and>
   (\<exists>r h' ys.
      addToRecentList
        \<lparr>arrays = [0 \<mapsto> [\<lparr>category = ''Emails'', index = 0, value = ''first@example.com''\<rparr>,
                           \<lparr>category = ''Emails'', index = 1, value = ''second@example.com''\<rparr>]],
         nextRef = 1\<rparr> 0 ''Emails'' 1 ''second@example.com'' = Inr (r, h') \<and>
      arrays h' r = Some ys \<and> length ys \<le> MAX_RECENT \<and> length ys \<le> 5 \<and> ys \<noteq> [] \<and>
      hd ys = \<lparr>category = ''Emails'', index = 1, value = ''second@example.com''\<rparr> \<and>
      distinct (map key ys) \<and>
      arrays h' 0 =
        Some [\<lparr>category = ''Emails'', index = 0, value = ''first@example.com''\<rparr>,
              \<lparr>category = ''Emails'', index = 1, value = ''second@example.com''\<rparr>])"
proof -
  let ?xs = "[\<lparr>category = ''Emails'', index = 0, value = ''first@example.com''\<rparr>,
              \<lparr>category = ''Emails'', index = 1, value = ''second@example.com''\<rparr>]"
  let ?h = "\<lparr>arrays = [0 \<mapsto> ?xs], nextRef = 1\<rparr>"
  have h1: "arrays ?h 0 = Some ?xs" by simp
  have h2: "(0::nat) < nextRef ?h" by simp
  have h3: "distinct (map key ?xs)" by (simp add: key_def)
  from addToRecentList_invariant [OF h1 h2 h3, of "''Emails''" 1 "''second@example.com''"] h1 h2 h3
  show ?thesis by blast
qed


section \<open>Properties of the field analysis\<close>

lemma bindE_receiver:
  "bindE (stringReceiver (withDefault v d)) f =
     (if absentOrString v then f (stringOr d v) else Inl TypeError)"
  by (cases v)
     (simp_all add: bindE_def stringReceiver_def withDefault_def absentOrString_def stringOr_def)

lemma analyzeFieldAttributes_strings:
  "stringAttrs a \<Longrightarrow>
     analyzeFieldAttributes a =
       Inr (analyzeStrings (stringOr [] (tagName a)) (stringOr ''text'' (type a))
              (stringOr [] (name a)) (stringOr [] (id_attr a)) (stringOr [] (autocomplete a))
              (stringOr [] (placeholder a)) (stringOr [] (labelText a)))"
  by (simp add: analyzeFieldAttributes_def bindE_receiver stringAttrs_def)

lemma analyzeFieldAttributes_throws:
  "\<not> stringAttrs a \<Longrightarrow> analyzeFieldAttributes a = Inl TypeError"
  by (simp add: analyzeFieldAttributes_def bindE_receiver stringAttrs_def)

lemma analyzeFieldAttributes_Inr:
  "analyzeFieldAttributes a = Inr r \<Longrightarrow> stringAttrs a"
  using analyzeFieldAttributes_throws [of a] by (cases "stringAttrs a") simp_all

lemma absentOrString_withDefault: "absentOrString v \<Longrightarrow> absentOrString (withDefault v d)"
  by (cases v) (simp_all add: absentOrString_def withDefault_def)

lemma stringOr_withDefault:
  "absentOrString v \<Longrightarrow> stringOr d' (withDefault v d) = stringOr d v"
  by (cases v) (simp_all add: absentOrString_def withDefault_def stringOr_def)

lemma stringAttrs_withDefaults: "stringAttrs a \<Longrightarrow> stringAttrs (withDefaults a)"
  by (simp add: stringAttrs_def withDefaults_def absentOrString_withDefault)

subsection \<open>Totality\<close>

text \<open>
  Claim C9, as stated, fails: a property that holds \<open>null\<close> is not replaced by its
  default, and the \<open>.toLowerCase()\<close> call on it throws.
\<close>

theorem null_type_throws:
  "analyzeFieldAttributes
     \<lparr>tagName = JStr ''input'', type = JNull, name = JUndefined, id_attr = JUndefined,
      autocomplete = JUndefined, placeholder = JUndefined, labelText = JUndefined\<rparr> =
   Inl TypeError"
  by code_simp

text \<open>
  Claim C9, amended.  On every argument object whose seven properties are each absent or
  a string, \<open>analyzeFieldAttributes\<close> returns a value and does not throw; the value is
  the one the rules give for the properties with every absent one replaced by its default
  (\<open>type\<close> by \<open>"text"\<close>, the six others by the empty string), which is also the value
  returned for the object with the defaults written out.  The function is a function of
  its argument alone.
\<close>

theorem total_on_string_attrs:
  assumes "stringAttrs a"
  shows "(\<exists>r. analyzeFieldAttributes a = Inr r) \<and>
         analyzeFieldAttributes a =
           Inr (analyzeStrings (stringOr [] (tagName a)) (stringOr ''text'' (type a))
                  (stringOr [] (name a)) (stringOr [] (id_attr a))
                  (stringOr [] (autocomplete a)) (stringOr [] (placeholder a))
                  (stringOr [] (labelText a))) \<and>
         analyzeFieldAttributes a = analyzeFieldAttributes (withDefaults a)"
proof -
  note eq = analyzeFieldAttributes_strings [OF assms]
  have "stringAttrs (withDefaults a)" by (rule stringAttrs_withDefaults [OF assms])
  from analyzeFieldAttributes_strings [OF this] eq assms
  have "analyzeFieldAttributes a = analyzeFieldAttributes (withDefaults a)"
    by (simp add: withDefaults_def stringAttrs_def stringOr_withDefault)
  with eq show ?thesis by simp
qed

theorem total_on_string_attrs_witness:
  "stringAttrs \<lparr>tagName = JStr ''input'', type = JUndefined, name = JUndefined,
      id_attr = JUndefined, autocomplete = JUndefined, placeholder = JUndefined,
      labelText = JUndefined\<rparr> \<and>
   analyzeFieldAttributes \<lparr>tagName = JStr ''input'', type = JUndefined, name = JUndefined,
      id_attr = JUndefined, autocomplete = JUndefined, placeholder = JUndefined,
      labelText = JUndefined\<rparr> =
     Inr (analyzeStrings ''input'' ''text'' [] [] [] [] []) \<and>
   analyzeFieldAttributes \<lparr>tagName = JStr ''input'', type = JUndefined, name = JUndefined,
      id_attr = JUndefined, autocomplete = JUndefined, placeholder = JUndefined,
      labelText = JUndefined\<rparr> =
     analyzeFieldAttributes \<lparr>tagName = JStr ''input'', type = JStr ''text'', name = JStr [],
      id_attr = JStr [], autocomplete = JStr [], placeholder = JStr [],
      labelText = JStr []\<rparr>"
proof -
  let ?a = "\<lparr>tagName = JStr ''input'', type = JUndefined, name = JUndefined,
      id_attr = JUndefined, autocomplete = JUndefined, placeholder = JUndefined,
      labelText = JUndefined\<rparr>"
  have h: "stringAttrs ?a" by (simp add: stringAttrs_def absentOrString_def)
  note t = total_on_string_attrs [OF h]
  have a: "analyzeFieldAttributes ?a = Inr (analyzeStrings ''input'' ''text'' [] [] [] [] [])"
    using t [THEN conjunct2, THEN conjunct1] by (simp add: stringOr_def)
  have b: "analyzeFieldAttributes ?a =
      analyzeFieldAttributes \<lparr>tagName = JStr ''input'', type = JStr ''text'', name = JStr [],
        id_attr = JStr [], autocomplete = JStr [], placeholder = JStr [],
        labelText = JStr []\<rparr>"
    using t [THEN conjunct2, THEN conjunct2] by (simp add: withDefaults_def withDefault_def)
  show ?thesis using h a b by (intro conjI)
qed

subsection \<open>Skipped fields\<close>

text \<open>
  Claim C2, as stated, fails: a \<open>div\<close> is neither an input nor a textarea, its type is
  not one of the skipped ones, and it is analysed all the same.
\<close>

theorem div_is_analysed:
  "toLowerCase ''div'' \<notin> {''input'', ''textarea''} \<and>
   toLowerCase ''text'' \<notin> set SKIP_INPUT_TYPES \<and>
   analyzeFieldAttributes
     \<lparr>tagName = JStr ''div'', type = JStr ''text'', name = JUndefined, id_attr = JUndefined,
      autocomplete = JUndefined, placeholder = JUndefined, labelText = JUndefined\<rparr> =
   Inr (Some \<lparr>riskLevel = Medium, risks = [missingAutocompleteWarning],
      attributes = \<lparr>attr_tagName = ''div'', attr_type = ''text'', attr_name = [], attr_id = [],
         attr_autocomplete = [], attr_placeholder = []\<rparr>\<rparr>)"
  by code_simp

text \<open>
  Claim C2, amended.  On every argument object whose properties are each absent or a
  string, \<open>analyzeFieldAttributes\<close> returns \<open>null\<close> exactly when the lower-cased type
  is one of hidden, submit, button, reset, image, file, checkbox, radio, or the
  lower-cased tag name is \<open>select\<close>; on every other such object it returns a verdict.
  Tag names other than \<open>select\<close>, the absent one included, are analysed.
\<close>

theorem null_iff_skipped_type_or_select:
  assumes "stringAttrs a"
  shows "(analyzeFieldAttributes a = Inr None) =
           (toLowerCase (stringOr ''text'' (type a)) \<in>
              {''hidden'', ''submit'', ''button'', ''reset'', ''image'', ''file'',
               ''checkbox'', ''radio''} \<or>
            toLowerCase (stringOr [] (tagName a)) = ''select'') \<and>
         (\<exists>v. analyzeFieldAttributes a = Inr (Some v)) =
           (\<not> (toLowerCase (stringOr ''text'' (type a)) \<in>
                {''hidden'', ''submit'', ''button'', ''reset'', ''image'', ''file'',
                 ''checkbox'', ''radio''} \<or>
               toLowerCase (stringOr [] (tagName a)) = ''select''))"
proof -
  have s: "set SKIP_INPUT_TYPES =
      {''hidden'', ''submit'', ''button'', ''reset'', ''image'', ''file'', ''checkbox'', ''radio''}"
    by (simp add: SKIP_INPUT_TYPES_def)
  show ?thesis
    unfolding analyzeFieldAttributes_strings [OF assms] s [symmetric]
    by (simp add: analyzeStrings_def Let_def)
qed

theorem null_iff_skipped_type_or_select_witness:
  "stringAttrs \<lparr>tagName = JStr ''INPUT'', type = JStr ''CheckBox'', name = JStr ''agree'',
      id_attr = JUndefined, autocomplete = JUndefined, placeholder = JUndefined,
      labelText = JUndefined\<rparr> \<and>
   toLowerCase ''CheckBox'' = ''checkbox'' \<and>
   analyzeFieldAttributes \<lparr>tagName = JStr ''INPUT'', type = JStr ''CheckBox'',
      name = JStr ''agree'', id_attr = JUndefined, autocomplete = JUndefined,
      placeholder = JUndefined, labelText = JUndefined\<rparr> = Inr None"
proof -
  let ?a = "\<lparr>tagName = JStr ''INPUT'', type = JStr ''CheckBox'', name = JStr ''agree'',
      id_attr = JUndefined, autocomplete = JUndefined, placeholder = JUndefined,
      labelText = JUndefined\<rparr>"
  have h: "stringAttrs ?a" by (simp add: stringAttrs_def absentOrString_def)
  have l: "toLowerCase ''CheckBox'' = ''checkbox''" by code_simp
  from null_iff_skipped_type_or_select [OF h] h l show ?thesis
    by (simp add: stringOr_def)
qed

subsection \<open>Field kinds that trigger autofill\<close>

lemma checkName_mono: "set (fst f) \<subseteq> set (fst (checkName nm f))"
  by (auto simp: checkName_def split: option.splits)

lemma checkId_mono: "set (fst f) \<subseteq> set (fst (checkId i f))"
  by (auto simp: checkId_def split: option.splits)

lemma checkPlaceholder_mono: "set (fst f) \<subseteq> set (fst (checkPlaceholder p f))"
  by (auto simp: checkPlaceholder_def split: option.splits)

lemma checkLabelText_mono: "set (fst f) \<subseteq> set (fst (checkLabelText l f))"
  by (auto simp: checkLabelText_def split: option.splits)

lemma checkFormHistory_mono: "set (fst f) \<subseteq> set (fst (checkFormHistory nm ac f))"
  by (auto simp: checkFormHistory_def)

lemma checkName_High: "snd f = High \<Longrightarrow> snd (checkName nm f) = High"
  by (auto simp: checkName_def split: option.splits)

lemma checkId_High: "snd f = High \<Longrightarrow> snd (checkId i f) = High"
  by (auto simp: checkId_def split: option.splits)

lemma checkPlaceholder_level: "snd (checkPlaceholder p f) = snd f"
  by (auto simp: checkPlaceholder_def split: option.splits)

lemma checkLabelText_level: "snd (checkLabelText l f) = snd f"
  by (auto simp: checkLabelText_def split: option.splits)

lemma checkFormHistory_High: "snd f = High \<Longrightarrow> snd (checkFormHistory nm ac f) = High"
  by (auto simp: checkFormHistory_def)

lemma checkInputType_high:
  assumes "toLowerCase ty \<in> {''email'', ''tel'', ''url''}"
  shows "snd (checkInputType ty f) = High"
    and "inputTypeError ty \<in> set (fst (checkInputType ty f))"
  using assms by (auto simp: checkInputType_def)

lemma not_skipped: "t \<in> {''email'', ''tel'', ''url''} \<Longrightarrow> t \<notin> set SKIP_INPUT_TYPES"
  by (auto simp: SKIP_INPUT_TYPES_def)

text \<open>
  Claim C1, as stated, fails: a \<open>select\<close> element whose type attribute is \<open>email\<close> gets
  no verdict at all.
\<close>

theorem select_email_returns_null:
  "toLowerCase ''email'' \<in> {''email'', ''tel'', ''url''} \<and>
   analyzeFieldAttributes
     \<lparr>tagName = JStr ''select'', type = JStr ''email'', name = JUndefined,
      id_attr = JUndefined, autocomplete = JUndefined, placeholder = JUndefined,
      labelText = JUndefined\<rparr> = Inr None"
  by code_simp

text \<open>
  Claim C1, amended.  For every attribute combination (each property absent or a string)
  whose lower-cased type is one of email, tel, url and whose lower-cased tag name is not
  \<open>select\<close>, \<open>analyzeFieldAttributes\<close> returns a verdict with \<open>riskLevel = high\<close>,
  and the verdict contains the error finding for the input type.
\<close>

theorem typed_field_is_high_risk:
  assumes "stringAttrs a"
    and "toLowerCase (stringOr ''text'' (type a)) \<in> {''email'', ''tel'', ''url''}"
    and "toLowerCase (stringOr [] (tagName a)) \<noteq> ''select''"
  shows "\<exists>v. analyzeFieldAttributes a = Inr (Some v) \<and> riskLevel v = High \<and>
             \<lparr>risk_type = Error,
              message = ''type=\"'' @ stringOr ''text'' (type a) @
                        ''\" - This input type triggers autofill''\<rparr> \<in> set (risks v)"
proof -
  define ty where "ty = stringOr ''text'' (type a)"
  define f1 where
    "f1 = checkInputType ty (checkAutocomplete (stringOr [] (autocomplete a)) ([], Low))"
  define f2 where "f2 = checkName (stringOr [] (name a)) f1"
  define f3 where "f3 = checkId (stringOr [] (id_attr a)) f2"
  define f4 where "f4 = checkPlaceholder (stringOr [] (placeholder a)) f3"
  define f5 where "f5 = checkLabelText (stringOr [] (labelText a)) f4"
  define f6 where
    "f6 = checkFormHistory (stringOr [] (name a)) (stringOr [] (autocomplete a)) f5"
  have t: "toLowerCase ty \<in> {''email'', ''tel'', ''url''}"
    using assms(2) by (simp add: ty_def)
  have l1: "snd f1 = High" and m1: "inputTypeError ty \<in> set (fst f1)"
    unfolding f1_def using checkInputType_high [OF t] by blast+
  have "snd f2 = High" unfolding f2_def by (rule checkName_High [OF l1])
  then have "snd f3 = High" unfolding f3_def by (rule checkId_High)
  then have "snd f5 = High"
    by (simp add: f5_def f4_def checkLabelText_level checkPlaceholder_level)
  then have l6: "snd f6 = High" unfolding f6_def by (rule checkFormHistory_High)
  have "inputTypeError ty \<in> set (fst f2)" using m1 checkName_mono unfolding f2_def by blast
  then have "inputTypeError ty \<in> set (fst f3)" using checkId_mono unfolding f3_def by blast
  then have "inputTypeError ty \<in> set (fst f4)"
    using checkPlaceholder_mono unfolding f4_def by blast
  then have "inputTypeError ty \<in> set (fst f5)"
    using checkLabelText_mono unfolding f5_def by blast
  then have m6: "inputTypeError ty \<in> set (fst f6)"
    using checkFormHistory_mono unfolding f6_def by blast
  have "analyzeFieldAttributes a =
          Inr (Some \<lparr>riskLevel = snd f6, risks = fst f6,
                 attributes = \<lparr>attr_tagName = toLowerCase (stringOr [] (tagName a)),
                    attr_type = toLowerCase ty, attr_name = stringOr [] (name a),
                    attr_id = stringOr [] (id_attr a),
                    attr_autocomplete = stringOr [] (autocomplete a),
                    attr_placeholder = stringOr [] (placeholder a)\<rparr>\<rparr>)"
    using not_skipped [OF t] assms(3)
    by (simp add: analyzeFieldAttributes_strings [OF assms(1)] analyzeStrings_def Let_def
          ty_def [symmetric] f1_def [symmetric] f2_def [symmetric] f3_def [symmetric]
          f4_def [symmetric] f5_def [symmetric] f6_def [symmetric])
  then show ?thesis using l6 m6 by (simp add: ty_def inputTypeError_def)
qed

theorem typed_field_is_high_risk_witness:
  "stringAttrs \<lparr>tagName = JStr ''INPUT'', type = JStr ''EMAIL'', name = JUndefined,
      id_attr = JUndefined, autocomplete = JStr ''OFF'', placeholder = JUndefined,
      labelText = JUndefined\<rparr> \<and>
   toLowerCase ''EMAIL'' \<in> {''email'', ''tel'', ''url''} \<and>
   toLowerCase ''INPUT'' \<noteq> ''select'' \<and>
   (\<exists>v. analyzeFieldAttributes \<lparr>tagName = JStr ''INPUT'', type = JStr ''EMAIL'',
           name = JUndefined, id_attr = JUndefined, autocomplete = JStr ''OFF'',
           placeholder = JUndefined, labelText = JUndefined\<rparr> = Inr (Some v) \<and>
        riskLevel v = High \<and>
        \<lparr>risk_type = Error,
         message = ''type=\"EMAIL\" - This input type triggers autofill''\<rparr> \<in> set (risks v))"
proof -
  let ?a = "\<lparr>tagName = JStr ''INPUT'', type = JStr ''EMAIL'', name = JUndefined,
      id_attr = JUndefined, autocomplete = JStr ''OFF'', placeholder = JUndefined,
      labelText = JUndefined\<rparr>"
  have h1: "stringAttrs ?a" by (simp add: stringAttrs_def absentOrString_def)
  have l2: "toLowerCase ''EMAIL'' \<in> {''email'', ''tel'', ''url''}" by code_simp
  have l3: "toLowerCase ''INPUT'' \<noteq> ''select''" by code_simp
  have h2: "toLowerCase (stringOr ''text'' (type ?a)) \<in> {''email'', ''tel'', ''url''}"
    using l2 by (simp add: stringOr_def)
  have h3: "toLowerCase (stringOr [] (tagName ?a)) \<noteq> ''select''"
    using l3 by (simp add: stringOr_def)
  from typed_field_is_high_risk [OF h1 h2 h3] h1 l2 l3 show ?thesis
    by (simp add: stringOr_def)
qed

subsection \<open>The form-history warning\<close>

lemma toLowerCase_Nil_iff: "toLowerCase s = [] \<longleftrightarrow> s = []"
  by (simp add: toLowerCase_def)

lemma fh_checkAutocomplete:
  "count_list (fst (checkAutocomplete ac f)) formHistoryWarning =
   count_list (fst f) formHistoryWarning"
  by (simp add: checkAutocomplete_def Let_def formHistoryWarning_def
        missingAutocompleteWarning_def)

lemma fh_checkInputType:
  "count_list (fst (checkInputType ty f)) formHistoryWarning =
   count_list (fst f) formHistoryWarning"
  by (simp add: checkInputType_def Let_def formHistoryWarning_def inputTypeError_def)

lemma fh_checkName:
  "count_list (fst (checkName nm f)) formHistoryWarning = count_list (fst f) formHistoryWarning"
  by (simp add: checkName_def formHistoryWarning_def split: option.splits)

lemma fh_checkId:
  "count_list (fst (checkId i f)) formHistoryWarning = count_list (fst f) formHistoryWarning"
  by (simp add: checkId_def formHistoryWarning_def split: option.splits)

lemma fh_checkPlaceholder:
  "count_list (fst (checkPlaceholder p f)) formHistoryWarning =
   count_list (fst f) formHistoryWarning"
  by (simp add: checkPlaceholder_def formHistoryWarning_def split: option.splits)

lemma fh_checkLabelText:
  "count_list (fst (checkLabelText l f)) formHistoryWarning =
   count_list (fst f) formHistoryWarning"
  by (simp add: checkLabelText_def formHistoryWarning_def split: option.splits)

lemma ma_checkAutocomplete:
  "missingAutocompleteWarning \<in> set (fst (checkAutocomplete ac ([], l))) \<longleftrightarrow> ac = []"
  by (simp add: checkAutocomplete_def Let_def missingAutocompleteWarning_def
        toLowerCase_Nil_iff)

lemma ma_checkInputType:
  "missingAutocompleteWarning \<in> set (fst (checkInputType ty f)) \<longleftrightarrow>
   missingAutocompleteWarning \<in> set (fst f)"
  by (simp add: checkInputType_def Let_def missingAutocompleteWarning_def inputTypeError_def)

lemma ma_checkName:
  "missingAutocompleteWarning \<in> set (fst (checkName nm f)) \<longleftrightarrow>
   missingAutocompleteWarning \<in> set (fst f)"
  by (simp add: checkName_def missingAutocompleteWarning_def split: option.splits)

lemma ma_checkId:
  "missingAutocompleteWarning \<in> set (fst (checkId i f)) \<longleftrightarrow>
   missingAutocompleteWarning \<in> set (fst f)"
  by (simp add: checkId_def missingAutocompleteWarning_def split: option.splits)

lemma ma_checkPlaceholder:
  "missingAutocompleteWarning \<in> set (fst (checkPlaceholder p f)) \<longleftrightarrow>
   missingAutocompleteWarning \<in> set (fst f)"
  by (simp add: checkPlaceholder_def missingAutocompleteWarning_def split: option.splits)

lemma ma_checkLabelText:
  "missingAutocompleteWarning \<in> set (fst (checkLabelText l f)) \<longleftrightarrow>
   missingAutocompleteWarning \<in> set (fst f)"
  by (simp add: checkLabelText_def missingAutocompleteWarning_def split: option.splits)

lemma ma_checkFormHistory:
  "missingAutocompleteWarning \<in> set (fst (checkFormHistory nm ac f)) \<longleftrightarrow>
   missingAutocompleteWarning \<in> set (fst f)"
  by (simp add: checkFormHistory_def missingAutocompleteWarning_def formHistoryWarning_def)

lemma checkFormHistory_count:
  "count_list (fst (checkFormHistory nm ac f)) formHistoryWarning =
     count_list (fst f) formHistoryWarning + (if formHistoryCondition nm ac then 1 else 0)"
  by (simp add: checkFormHistory_def)

lemma checkFormHistory_level:
  "formHistoryCondition nm ac \<Longrightarrow> snd (checkFormHistory nm ac f) \<noteq> Low"
  by (simp add: checkFormHistory_def)

lemma analyzeStrings_Some:
  assumes "analyzeStrings tg ty nm i ac p l = Some v"
  shows "risks v = fst (checkFormHistory nm ac
                   (checkLabelText l (checkPlaceholder p (checkId i (checkName nm
                      (checkInputType ty (checkAutocomplete ac ([], Low))))))))"
    and "riskLevel v = snd (checkFormHistory nm ac
                   (checkLabelText l (checkPlaceholder p (checkId i (checkName nm
                      (checkInputType ty (checkAutocomplete ac ([], Low))))))))"
  using assms by (auto simp: analyzeStrings_def Let_def split: if_splits)

text \<open>
  Claim C5.  In every verdict \<open>analyzeFieldAttributes\<close> returns, the missing-autocomplete
  warning of rule (1) and the form-history warning of rule (4) never occur together.  The
  form-history warning occurs exactly once when the name is not empty, the autocomplete
  value is not empty and its lower-cased form is not in the safe set, and not at all
  otherwise; and a verdict that carries it has a risk level of at least medium.
\<close>

theorem form_history_warning_exclusive:
  assumes "analyzeFieldAttributes a = Inr (Some v)"
  shows "\<not> (missingAutocompleteWarning \<in> set (risks v) \<and>
            formHistoryWarning \<in> set (risks v)) \<and>
         count_list (risks v) formHistoryWarning =
           (if stringOr [] (name a) \<noteq> [] \<and> stringOr [] (autocomplete a) \<noteq> [] \<and>
               toLowerCase (stringOr [] (autocomplete a)) \<notin> set SAFE_AUTOCOMPLETE_VALUES
            then 1 else 0) \<and>
         (formHistoryWarning \<in> set (risks v) \<longrightarrow> riskLevel v \<noteq> Low)"
proof -
  define nm where "nm = stringOr [] (name a)"
  define ac where "ac = stringOr [] (autocomplete a)"
  have sa: "stringAttrs a" using assms by (rule analyzeFieldAttributes_Inr)
  have "analyzeStrings (stringOr [] (tagName a)) (stringOr ''text'' (type a)) nm
          (stringOr [] (id_attr a)) ac (stringOr [] (placeholder a))
          (stringOr [] (labelText a)) = Some v"
    using assms analyzeFieldAttributes_strings [OF sa] by (simp add: nm_def ac_def)
  note rv = analyzeStrings_Some [OF this]
  have cond: "formHistoryCondition nm ac \<longleftrightarrow>
                nm \<noteq> [] \<and> ac \<noteq> [] \<and> toLowerCase ac \<notin> set SAFE_AUTOCOMPLETE_VALUES"
    by (simp add: formHistoryCondition_def toLowerCase_Nil_iff)
  have cnt: "count_list (risks v) formHistoryWarning =
               (if formHistoryCondition nm ac then 1 else 0)"
    by (simp add: rv(1) checkFormHistory_count fh_checkLabelText fh_checkPlaceholder
          fh_checkId fh_checkName fh_checkInputType fh_checkAutocomplete)
  have ma: "missingAutocompleteWarning \<in> set (risks v) \<longleftrightarrow> ac = []"
    by (simp add: rv(1) ma_checkFormHistory ma_checkLabelText ma_checkPlaceholder ma_checkId
          ma_checkName ma_checkInputType ma_checkAutocomplete)
  have fh: "formHistoryWarning \<in> set (risks v) \<longleftrightarrow> formHistoryCondition nm ac"
    using cnt count_list_0_iff [of "risks v" formHistoryWarning]
    by (cases "formHistoryCondition nm ac") simp_all
  have lvl: "formHistoryCondition nm ac \<Longrightarrow> riskLevel v \<noteq> Low"
    unfolding rv(2) by (rule checkFormHistory_level)
  show ?thesis
    using cnt ma fh lvl cond unfolding nm_def ac_def by auto
qed

theorem form_history_warning_exclusive_witness:
  "analyzeFieldAttributes
     \<lparr>tagName = JStr ''input'', type = JStr ''text'', name = JStr ''someRandomField'',
      id_attr = JUndefined, autocomplete = JStr ''on'', placeholder = JUndefined,
      labelText = JUndefined\<rparr> =
   Inr (Some \<lparr>riskLevel = High,
      risks = [\<lparr>risk_type = Error, message = ''autocomplete=\"on\" - WILL trigger autofill''\<rparr>,
               formHistoryWarning],
      attributes = \<lparr>attr_tagName = ''input'', attr_type = ''text'',
         attr_name = ''someRandomField'', attr_id = [], attr_autocomplete = ''on'',
         attr_placeholder = []\<rparr>\<rparr>) \<and>
   missingAutocompleteWarning \<noteq> formHistoryWarning \<and>
   count_list [\<lparr>risk_type = Error, message = ''autocomplete=\"on\" - WILL trigger autofill''\<rparr>,
               formHistoryWarning] formHistoryWarning = 1"
proof -
  let ?a = "\<lparr>tagName = JStr ''input'', type = JStr ''text'', name = JStr ''someRandomField'',
      id_attr = JUndefined, autocomplete = JStr ''on'', placeholder = JUndefined,
      labelText = JUndefined\<rparr>"
  let ?v = "\<lparr>riskLevel = High,
      risks = [\<lparr>risk_type = Error, message = ''autocomplete=\"on\" - WILL trigger autofill''\<rparr>,
               formHistoryWarning],
      attributes = \<lparr>attr_tagName = ''input'', attr_type = ''text'',
         attr_name = ''someRandomField'', attr_id = [], attr_autocomplete = ''on'',
         attr_placeholder = []\<rparr>\<rparr>"
  have h: "analyzeFieldAttributes ?a = Inr (Some ?v)" by code_simp
  have s: "toLowerCase ''on'' \<notin> set SAFE_AUTOCOMPLETE_VALUES" by code_simp
  have n: "missingAutocompleteWarning \<noteq> formHistoryWarning"
    by (simp add: missingAutocompleteWarning_def formHistoryWarning_def)
  from form_history_warning_exclusive [OF h] h s n show ?thesis
    by (simp add: stringOr_def)
qed


section \<open>Properties of the overlay counters\<close>

lemma fold_countOverlay:
  "fold countOverlay ovs acc =
     \<lparr>high = high acc + int (length (filter (\<lambda>ov. ''autofill-risk-high'' \<in> set (snd ov)) ovs)),
      medium = medium acc + int (length (filter (\<lambda>ov. ''autofill-risk-high'' \<notin> set (snd ov) \<and>
                  ''autofill-risk-medium'' \<in> set (snd ov)) ovs)),
      low = low acc + int (length (filter (\<lambda>ov. ''autofill-risk-high'' \<notin> set (snd ov) \<and>
                  ''autofill-risk-medium'' \<notin> set (snd ov) \<and>
                  ''autofill-risk-low'' \<in> set (snd ov)) ovs)),
      total = total acc + int (length ovs)\<rparr>"
proof (induction ovs arbitrary: acc)
  case Nil
  then show ?case by simp
next
  case (Cons ov ovs)
  show ?case
    unfolding fold_Cons comp_def Cons.IH
    by (simp add: countOverlay_def Let_def)
qed

lemma fieldStats_eq_iff:
  "(s = (t :: fieldStats)) \<longleftrightarrow>
     high s = high t \<and> medium s = medium t \<and> low s = low t \<and> total s = total t"
  by (cases s, cases t) auto


text \<open>
  Claim C6.  \<open>reconcileStats\<close> recounts from the overlay elements of the document: an
  overlay counts as high when it has the high-risk class, else as medium when it has the
  medium-risk class, else as low when it has the low-risk class, and every overlay counts
  towards the total.  When the maintained counters equal the recount, nothing changes and
  nothing is sent; when they differ, the counters become the recount and exactly one
  report, carrying the recount, is appended to the messages sent.
\<close>

theorem reconcileStats_recounts:
  "reconcileStats st =
     (let ovs = querySelectorAll ''autofill-detector-overlay'' (body st);
          actual =
            \<lparr>high = int (length (filter (\<lambda>ov. ''autofill-risk-high'' \<in> set (snd ov)) ovs)),
             medium = int (length (filter (\<lambda>ov. ''autofill-risk-high'' \<notin> set (snd ov) \<and>
                  ''autofill-risk-medium'' \<in> set (snd ov)) ovs)),
             low = int (length (filter (\<lambda>ov. ''autofill-risk-high'' \<notin> set (snd ov) \<and>
                  ''autofill-risk-medium'' \<notin> set (snd ov) \<and>
                  ''autofill-risk-low'' \<in> set (snd ov)) ovs)),
             total = int (length ovs)\<rparr>
      in if fieldStats st = actual then st
         else st\<lparr>fieldStats := actual, sent := sent st @ [UpdateBadge actual]\<rparr>)"
  unfolding reconcileStats_def fold_countOverlay Let_def
  by (simp add: fieldStats_eq_iff updateBadge_def)


theorem reconcileStats_recounts_witness:
  "reconcileStats
     \<lparr>fieldStats = \<lparr>high = 0, medium = 0, low = 0, total = 0\<rparr>,
      overlayMap = Map.empty, tooltipMap = Map.empty,
      body = [Element 0 ''div'' [''autofill-detector-overlay'', ''autofill-risk-high''] [] [],
              Element 1 ''div'' [''autofill-detector-overlay'', ''autofill-risk-medium''] [] [],
              Element 2 ''div'' [''autofill-detector-overlay'', ''autofill-risk-medium''] [] [],
              Element 3 ''div'' [''autofill-detector-overlay'', ''autofill-risk-low''] [] []],
      nextId = 4, sent = []\<rparr> =
     \<lparr>fieldStats = \<lparr>high = 1, medium = 2, low = 1, total = 4\<rparr>,
      overlayMap = Map.empty, tooltipMap = Map.empty,
      body = [Element 0 ''div'' [''autofill-detector-overlay'', ''autofill-risk-high''] [] [],
              Element 1 ''div'' [''autofill-detector-overlay'', ''autofill-risk-medium''] [] [],
              Element 2 ''div'' [''autofill-detector-overlay'', ''autofill-risk-medium''] [] [],
              Element 3 ''div'' [''autofill-detector-overlay'', ''autofill-risk-low''] [] []],
      nextId = 4, sent = [UpdateBadge \<lparr>high = 1, medium = 2, low = 1, total = 4\<rparr>]\<rparr> \<and>
   reconcileStats
     \<lparr>fieldStats = \<lparr>high = 1, medium = 2, low = 1, total = 4\<rparr>,
      overlayMap = Map.empty, tooltipMap = Map.empty,
      body = [Element 0 ''div'' [''autofill-detector-overlay'', ''autofill-risk-high''] [] [],
              Element 1 ''div'' [''autofill-detector-overlay'', ''autofill-risk-medium''] [] [],
              Element 2 ''div'' [''autofill-detector-overlay'', ''autofill-risk-medium''] [] [],
              Element 3 ''div'' [''autofill-detector-overlay'', ''autofill-risk-low''] [] []],
      nextId = 4, sent = []\<rparr> =
     \<lparr>fieldStats = \<lparr>high = 1, medium = 2, low = 1, total = 4\<rparr>,
      overlayMap = Map.empty, tooltipMap = Map.empty,
      body = [Element 0 ''div'' [''autofill-detector-overlay'', ''autofill-risk-high''] [] [],
              Element 1 ''div'' [''autofill-detector-overlay'', ''autofill-risk-medium''] [] [],
              Element 2 ''div'' [''autofill-detector-overlay'', ''autofill-risk-medium''] [] [],
              Element 3 ''div'' [''autofill-detector-overlay'', ''autofill-risk-low''] [] []],
      nextId = 4, sent = []\<rparr>"
  by (simp add: reconcileStats_recounts querySelectorAll_def elementsOf_def Let_def)


section \<open>Properties of overlay creation\<close>

lemma elementsOf_append: "elementsOf (ns @ ms) = elementsOf ns @ elementsOf ms"
  by (simp add: elementsOf_def)

lemma elementsOf_Nil: "elementsOf [] = []"
  by (simp add: elementsOf_def)

lemma elementsOf_Cons: "elementsOf (n # ns) = elements n @ elementsOf ns"
  by (simp add: elementsOf_def)

lemma subseq_concat_map:
  assumes "\<And>c. c \<in> set cs \<Longrightarrow> subseq (f (g c)) (f c)"
  shows "subseq (concat (map f (map g (filter P cs)))) (concat (map f cs))"
  using assms
proof (induction cs)
  case Nil
  then show ?case by simp
next
  case (Cons c cs)
  have ih: "subseq (concat (map f (map g (filter P cs)))) (concat (map f cs))"
    using Cons by simp
  show ?case
  proof (cases "P c")
    case True
    have "subseq (f (g c)) (f c)" using Cons.prems by simp
    then show ?thesis using ih True by (simp add: list_emb_append_mono)
  next
    case False
    then show ?thesis using ih by (simp add: list_emb_append2)
  qed
qed

lemma subseq_removeFrom: "subseq (elements (removeFrom i n)) (elements n)"
proof (induction n)
  case (TextNode s)
  then show ?case by simp
next
  case (Element j tg cl ti cs)
  have "subseq (concat (map elements (map (removeFrom i) (filter (\<lambda>c. \<not> hasId i c) cs))))
          (concat (map elements cs))"
    by (rule subseq_concat_map) (use Element in simp)
  then show ?case by simp
qed

lemma subseq_removeElement: "subseq (elementsOf (removeElement i ns)) (elementsOf ns)"
  unfolding elementsOf_def removeElement_def
  by (rule subseq_concat_map) (rule subseq_removeFrom)

lemma removeFrom_absent: "\<not> hasId i n \<Longrightarrow> i \<notin> fst ` set (elements (removeFrom i n))"
proof (induction n)
  case (TextNode s)
  then show ?case by simp
next
  case (Element j tg cl ti cs)
  then show ?case by (auto simp del: hasId.simps(2) simp: image_iff) (auto)
qed

lemma removeElement_absent: "i \<notin> fst ` set (elementsOf (removeElement i ns))"
  using removeFrom_absent by (auto simp: elementsOf_def removeElement_def)

lemma removeFrom_id: "i \<notin> fst ` set (elements n) \<Longrightarrow> removeFrom i n = n"
proof (induction n)
  case (TextNode s)
  then show ?case by simp
next
  case (Element j tg cl ti cs)
  have a: "\<And>c. c \<in> set cs \<Longrightarrow> i \<notin> fst ` set (elements c)"
    using Element.prems by auto
  have b: "\<And>c. c \<in> set cs \<Longrightarrow> \<not> hasId i c"
  proof -
    fix c assume "c \<in> set cs"
    then have "i \<notin> fst ` set (elements c)" by (rule a)
    then show "\<not> hasId i c" by (cases c) auto
  qed
  have "filter (\<lambda>c. \<not> hasId i c) cs = cs" using b by (simp add: filter_id_conv)
  moreover have "map (removeFrom i) cs = cs"
    using Element.IH a by (simp add: map_idI)
  ultimately show ?case by simp
qed

lemma removeElement_id:
  assumes "i \<notin> fst ` set (elementsOf ns)"
  shows "removeElement i ns = ns"
proof -
  have a: "\<And>c. c \<in> set ns \<Longrightarrow> i \<notin> fst ` set (elements c)"
    using assms by (auto simp: elementsOf_def)
  have b: "\<And>c. c \<in> set ns \<Longrightarrow> \<not> hasId i c"
  proof -
    fix c assume "c \<in> set ns"
    then have "i \<notin> fst ` set (elements c)" by (rule a)
    then show "\<not> hasId i c" by (cases c) auto
  qed
  have "filter (\<lambda>c. \<not> hasId i c) ns = ns" using b by (simp add: filter_id_conv)
  moreover have "map (removeFrom i) ns = ns"
    using removeFrom_id a by (simp add: map_idI)
  ultimately show ?thesis by (simp add: removeElement_def)
qed

lemma overlayIds_append: "overlayIds (ns @ ms) = overlayIds ns @ overlayIds ms"
  by (simp add: overlayIds_def querySelectorAll_def elementsOf_append)

lemma overlayIds_subset: "set (overlayIds ns) \<subseteq> fst ` set (elementsOf ns)"
  by (auto simp: overlayIds_def querySelectorAll_def)

lemma subseq_overlayIds: "subseq (overlayIds (removeElement i ns)) (overlayIds ns)"
  unfolding overlayIds_def querySelectorAll_def
  by (intro subseq_map subseq_filter subseq_removeElement)

lemma overlayIds_removeElement_absent: "i \<notin> set (overlayIds (removeElement i ns))"
  using removeElement_absent [of i ns] overlayIds_subset [of "removeElement i ns"] by blast

lemma overlayIds_overlayNode:
  "overlayIds [Element ov ''div'' [''autofill-detector-overlay'', ''autofill-risk-'' @ lvl] []
                 [Element b ''div'' [''autofill-detector-badge'', ''autofill-badge-'' @ lvl] []
                    [TextNode t]]] = [ov]"
  by (simp add: overlayIds_def querySelectorAll_def elementsOf_def)

lemma removeElement_append: "removeElement i (ns @ ms) = removeElement i ns @ removeElement i ms"
  by (simp add: removeElement_def)

lemma createOverlay_fields:
  "body (snd (createOverlay a st)) =
     (case overlayMap st (element a) of
        Some existingOverlay \<Rightarrow> removeElement existingOverlay (body st)
      | None \<Rightarrow> body st) @
     [Element (nextId st) ''div''
        [''autofill-detector-overlay'', ''autofill-risk-'' @ levelName (riskLevel (verdict a))] []
        [Element (nextId st + 1) ''div''
           [''autofill-detector-badge'', ''autofill-badge-'' @ levelName (riskLevel (verdict a))] []
           [TextNode (toUpperCase (levelName (riskLevel (verdict a))))]]]"
  "overlayMap (snd (createOverlay a st)) = (overlayMap st)(element a \<mapsto> nextId st)"
  "nextId (snd (createOverlay a st)) = nextId st + 3"
  "fst (createOverlay a st) = nextId st"
  by (simp_all add: createOverlay_def Let_def)

lemma filter_eq_distinct_le1: "distinct xs \<Longrightarrow> length (filter (\<lambda>x. c = Some x) xs) \<le> 1"
proof (induction xs)
  case Nil
  then show ?case by simp
next
  case (Cons x xs)
  show ?case
  proof (cases "c = Some x")
    case True
    then have "filter (\<lambda>y. c = Some y) xs = []" using Cons.prems by (auto simp: filter_empty_conv)
    then show ?thesis using True by simp
  next
    case False
    then show ?thesis using Cons by simp
  qed
qed

lemma at_most_one_overlay: "overlayInvariant st \<Longrightarrow> length (overlaysOfField st e) \<le> 1"
  unfolding overlaysOfField_def overlayInvariant_def
  using filter_eq_distinct_le1 by blast

lemma subseq_set: "subseq xs ys \<Longrightarrow> set xs \<subseteq> set ys"
  by (auto dest: list_emb_set)

lemma subseq_distinct: "subseq xs ys \<Longrightarrow> distinct ys \<Longrightarrow> distinct xs"
proof (induction rule: list_emb.induct)
  case (list_emb_Nil ys)
  then show ?case by simp
next
  case (list_emb_Cons xs ys y)
  then show ?case by simp
next
  case (list_emb_Cons2 x y xs ys)
  then show ?case using subseq_set [of xs ys] by auto
qed

lemma createOverlay_body1:
  fixes a :: analysis and st :: content_state
  assumes inv: "overlayInvariant st"
  defines "body1 \<equiv> (case overlayMap st (element a) of
        Some existingOverlay \<Rightarrow> removeElement existingOverlay (body st)
      | None \<Rightarrow> body st)"
  shows "subseq (overlayIds body1) (overlayIds (body st))"
    and "subseq (elementsOf body1) (elementsOf (body st))"
    and "overlayMap st (element a) = Some old \<Longrightarrow> old \<notin> set (overlayIds body1)"
    and "\<forall>i \<in> fst ` set (elementsOf body1). i < nextId st"
    and "\<forall>i \<in> set (overlayIds body1). i < nextId st"
proof -
  show s1: "subseq (overlayIds body1) (overlayIds (body st))"
    unfolding body1_def by (cases "overlayMap st (element a)") (simp_all add: subseq_overlayIds)
  show s2: "subseq (elementsOf body1) (elementsOf (body st))"
    unfolding body1_def by (cases "overlayMap st (element a)") (simp_all add: subseq_removeElement)
  show "overlayMap st (element a) = Some old \<Longrightarrow> old \<notin> set (overlayIds body1)"
    unfolding body1_def by (simp add: overlayIds_removeElement_absent)
  have "set (elementsOf body1) \<subseteq> set (elementsOf (body st))"
    using s2 by (rule subseq_set)
  then show b: "\<forall>i \<in> fst ` set (elementsOf body1). i < nextId st"
    using inv unfolding overlayInvariant_def by blast
  show "\<forall>i \<in> set (overlayIds body1). i < nextId st"
    using b overlayIds_subset [of body1] by blast
qed

lemma createOverlay_invariant:
  fixes a :: analysis and st :: content_state
  assumes inv: "overlayInvariant st"
  shows "overlayInvariant (snd (createOverlay a st))"
    and "overlaysOfField (snd (createOverlay a st)) (element a) = [nextId st]"
    and "overlayMap st (element a) = Some old \<Longrightarrow>
           old \<notin> set (overlayIds (body (snd (createOverlay a st))))"
proof -
  define body1 where "body1 = (case overlayMap st (element a) of
        Some existingOverlay \<Rightarrow> removeElement existingOverlay (body st)
      | None \<Rightarrow> body st)"
  define st' where "st' = snd (createOverlay a st)"
  define lvl where "lvl = levelName (riskLevel (verdict a))"
  note b1 = createOverlay_body1 [OF inv, of a, folded body1_def]
  have ids': "overlayIds (body st') = overlayIds body1 @ [nextId st]"
    unfolding st'_def createOverlay_fields body1_def [symmetric] overlayIds_append
      overlayIds_overlayNode
    by simp
  have map': "overlayMap st' = (overlayMap st)(element a \<mapsto> nextId st)"
    and next': "nextId st' = nextId st + 3"
    unfolding st'_def by (simp_all add: createOverlay_fields)
  have els': "fst ` set (elementsOf (body st')) =
                fst ` set (elementsOf body1) \<union> {nextId st, nextId st + 1}"
    unfolding st'_def createOverlay_fields body1_def [symmetric] elementsOf_append
    by (auto simp: elementsOf_def)
  have fresh: "nextId st \<notin> set (overlayIds body1)"
    using b1(5) by auto
  have d0: "distinct (overlayIds (body st))" using inv by (simp add: overlayInvariant_def)
  have d1: "distinct (overlayIds body1)" using b1(1) d0 by (rule subseq_distinct)
  have i1: "distinct (overlayIds (body st'))" using d1 fresh by (simp add: ids')
  have ranlt: "\<And>ov. ov \<in> ran (overlayMap st) \<Longrightarrow> ov < nextId st"
    using inv by (simp add: overlayInvariant_def)
  have i2: "\<forall>ov \<in> set (overlayIds (body st')). \<exists>e. overlayMap st' e = Some ov"
  proof
    fix ov assume "ov \<in> set (overlayIds (body st'))"
    then consider "ov \<in> set (overlayIds body1)" | "ov = nextId st" by (auto simp: ids')
    then show "\<exists>e. overlayMap st' e = Some ov"
    proof cases
      case 1
      then have "ov \<in> set (overlayIds (body st))" using b1(1) subseq_set by blast
      then obtain e where e: "overlayMap st e = Some ov"
        using inv unfolding overlayInvariant_def by blast
      have "e \<noteq> element a" using b1(3) [of ov] e 1 by auto
      then have "overlayMap st' e = Some ov" using e by (simp add: map')
      then show ?thesis by blast
    next
      case 2
      then have "overlayMap st' (element a) = Some ov" by (simp add: map')
      then show ?thesis by blast
    qed
  qed
  have notran: "\<And>e. overlayMap st e \<noteq> Some (nextId st)"
  proof
    fix e assume "overlayMap st e = Some (nextId st)"
    then have "nextId st \<in> ran (overlayMap st)" by (auto simp: ran_def)
    then show False using ranlt by fastforce
  qed
  have inj0: "inj_on (overlayMap st) (dom (overlayMap st))"
    using inv by (simp add: overlayInvariant_def)
  have i3: "inj_on (overlayMap st') (dom (overlayMap st'))"
  proof (rule inj_onI)
    fix x y
    assume x: "x \<in> dom (overlayMap st')" and y: "y \<in> dom (overlayMap st')"
      and eq: "overlayMap st' x = overlayMap st' y"
    show "x = y"
    proof (cases "x = element a")
      case True
      then have "overlayMap st' y = Some (nextId st)" using eq by (simp add: map')
      then show ?thesis using True notran [of y] by (cases "y = element a") (simp_all add: map')
    next
      case xf: False
      show ?thesis
      proof (cases "y = element a")
        case True
        then have "overlayMap st' x = Some (nextId st)" using eq by (simp add: map')
        then show ?thesis using xf notran [of x] by (simp add: map')
      next
        case False
        then have "overlayMap st x = overlayMap st y" "x \<in> dom (overlayMap st)"
          "y \<in> dom (overlayMap st)"
          using xf x y eq by (simp_all add: map' dom_def)
        then show ?thesis using inj0 by (auto dest: inj_onD)
      qed
    qed
  qed
  have i4: "\<forall>ov \<in> ran (overlayMap st'). ov < nextId st'"
  proof
    fix ov assume "ov \<in> ran (overlayMap st')"
    then obtain e where e: "overlayMap st' e = Some ov" by (auto simp: ran_def)
    show "ov < nextId st'"
    proof (cases "e = element a")
      case True
      then show ?thesis using e by (simp add: map' next')
    next
      case False
      then have "ov \<in> ran (overlayMap st)" using e by (auto simp: map' ran_def)
      then show ?thesis using ranlt [of ov] by (simp add: next')
    qed
  qed
  have i5: "\<forall>i \<in> fst ` set (elementsOf (body st')). i < nextId st'"
    unfolding els' next' using b1(4) by fastforce
  show "overlayInvariant (snd (createOverlay a st))"
    unfolding overlayInvariant_def st'_def [symmetric] using i1 i2 i3 i4 i5 by blast
  have "overlaysOfField st' (element a) = [nextId st]"
    unfolding overlaysOfField_def ids' map' using fresh by (auto simp: filter_empty_conv)
  then show "overlaysOfField (snd (createOverlay a st)) (element a) = [nextId st]"
    by (simp add: st'_def)
  show "old \<notin> set (overlayIds (body (snd (createOverlay a st))))"
    if old: "overlayMap st (element a) = Some old"
  proof -
    have "old \<in> ran (overlayMap st)" using old by (auto simp: ran_def)
    then have "old \<noteq> nextId st" using ranlt by fastforce
    then show ?thesis using b1(3) [OF old] by (simp add: st'_def [symmetric] ids')
  qed
qed

lemma createOverlay_twice:
  fixes a a' :: analysis and st :: content_state
  assumes inv: "overlayInvariant st" and same: "element a' = element a"
  shows "length (overlayIds (body (snd (createOverlay a' (snd (createOverlay a st)))))) =
         length (overlayIds (body (snd (createOverlay a st))))"
proof -
  define body1 where "body1 = (case overlayMap st (element a) of
        Some existingOverlay \<Rightarrow> removeElement existingOverlay (body st)
      | None \<Rightarrow> body st)"
  define st' where "st' = snd (createOverlay a st)"
  note b1 = createOverlay_body1 [OF inv, of a, folded body1_def]
  have fresh: "nextId st \<notin> fst ` set (elementsOf body1)" using b1(4) by auto
  have rm: "removeElement (nextId st) (body st') = body1"
    unfolding st'_def createOverlay_fields body1_def [symmetric] removeElement_append
    using removeElement_id [OF fresh] by (simp add: removeElement_def)
  have m: "overlayMap st' (element a') = Some (nextId st)"
    by (simp add: st'_def createOverlay_fields same)
  have "overlayIds (body (snd (createOverlay a' st'))) = overlayIds body1 @ [nextId st']"
    unfolding createOverlay_fields m option.case rm overlayIds_append
      overlayIds_overlayNode
    by simp
  moreover have "overlayIds (body st') = overlayIds body1 @ [nextId st]"
    unfolding st'_def createOverlay_fields body1_def [symmetric] overlayIds_append
      overlayIds_overlayNode
    by simp
  ultimately show ?thesis by (simp add: st'_def)
qed


lemma createOverlay_twice_ids:
  fixes a a' :: analysis and st :: content_state
  assumes inv: "overlayInvariant st" and same: "element a' = element a"
    and none: "overlayIds (body st) = []"
  shows "overlayIds (body (snd (createOverlay a' (snd (createOverlay a st))))) =
           [fst (createOverlay a' (snd (createOverlay a st)))]"
proof -
  define st' where "st' = snd (createOverlay a st)"
  have inv': "overlayInvariant st'" unfolding st'_def by (rule createOverlay_invariant(1) [OF inv])
  have one: "overlaysOfField st' (element a) = [nextId st]"
    unfolding st'_def by (rule createOverlay_invariant(2) [OF inv])
  have sub: "subseq (overlayIds (case overlayMap st (element a) of
        Some existingOverlay \<Rightarrow> removeElement existingOverlay (body st)
      | None \<Rightarrow> body st)) (overlayIds (body st))"
    by (rule createOverlay_body1(1) [OF inv])
  have ids': "overlayIds (body st') = [nextId st]"
    unfolding st'_def createOverlay_fields overlayIds_append overlayIds_overlayNode
    using sub none by simp
  have "length (overlayIds (body (snd (createOverlay a' st')))) = 1"
    using createOverlay_twice [OF inv same] ids' by (simp add: st'_def)
  moreover have "overlaysOfField (snd (createOverlay a' st')) (element a') = [nextId st']"
    by (rule createOverlay_invariant(2) [OF inv'])
  ultimately have "overlayIds (body (snd (createOverlay a' st'))) = [nextId st']"
    unfolding overlaysOfField_def
    by (cases "overlayIds (body (snd (createOverlay a' st')))") (auto split: if_splits)
  then show ?thesis by (simp add: st'_def createOverlay_fields)
qed

text \<open>
  Claim C7.  Call the overlays of a field those overlays of the document that
  \<open>overlayMap\<close> records for it.  The invariant (every overlay of the document belongs to
  exactly one field, and overlay identities are distinct) is preserved by
  \<open>createOverlay\<close>, and it gives every field at most one overlay.  After
  \<open>createOverlay\<close> the field has exactly the overlay just created; an overlay recorded
  for the field before is no longer in the document; creating an overlay again for the
  same field leaves the number of overlays in the document unchanged; and in a document
  that had no overlay, creating one twice for the same field leaves exactly one overlay,
  the second.
\<close>

theorem createOverlay_one_overlay_per_element:
  assumes "overlayInvariant st" and "element a' = element a"
  shows "overlayInvariant (snd (createOverlay a st)) \<and>
         (\<forall>e. length (overlaysOfField (snd (createOverlay a st)) e) \<le> 1) \<and>
         overlaysOfField (snd (createOverlay a st)) (element a) = [fst (createOverlay a st)] \<and>
         (\<forall>old. overlayMap st (element a) = Some old \<longrightarrow>
            old \<notin> set (overlayIds (body (snd (createOverlay a st))))) \<and>
         length (overlayIds (body (snd (createOverlay a' (snd (createOverlay a st)))))) =
           length (overlayIds (body (snd (createOverlay a st)))) \<and>
         (overlayIds (body st) = [] \<longrightarrow>
            overlayIds (body (snd (createOverlay a' (snd (createOverlay a st))))) =
              [fst (createOverlay a' (snd (createOverlay a st)))])"
proof -
  note i = createOverlay_invariant [OF assms(1), of a]
  have "\<forall>e. length (overlaysOfField (snd (createOverlay a st)) e) \<le> 1"
    using at_most_one_overlay [OF i(1)] by blast
  moreover have "overlaysOfField (snd (createOverlay a st)) (element a) =
                   [fst (createOverlay a st)]"
    using i(2) by (simp add: createOverlay_fields)
  moreover have "\<forall>old. overlayMap st (element a) = Some old \<longrightarrow>
            old \<notin> set (overlayIds (body (snd (createOverlay a st))))"
    using i(3) by blast
  moreover have "overlayIds (body st) = [] \<longrightarrow>
            overlayIds (body (snd (createOverlay a' (snd (createOverlay a st))))) =
              [fst (createOverlay a' (snd (createOverlay a st)))]"
    using createOverlay_twice_ids [OF assms] by blast
  ultimately show ?thesis
    using i(1) createOverlay_twice [OF assms] by blast
qed

theorem createOverlay_one_overlay_per_element_witness:
  "overlayInvariant
     \<lparr>fieldStats = \<lparr>high = 1, medium = 0, low = 0, total = 1\<rparr>,
      overlayMap = [0 \<mapsto> 1], tooltipMap = [0 \<mapsto> 3],
      body = [Element 0 ''input'' [] [] [],
              Element 1 ''div'' [''autofill-detector-overlay'', ''autofill-risk-high''] []
                [Element 2 ''div'' [''autofill-detector-badge'', ''autofill-badge-high''] []
                   [TextNode ''HIGH'']]],
      nextId = 4, sent = []\<rparr> \<and>
   overlayIds (body (snd (createOverlay
     \<lparr>element = 0, verdict = \<lparr>riskLevel = Medium, risks = [],
        attributes = \<lparr>attr_tagName = ''input'', attr_type = ''text'', attr_name = [],
          attr_id = [], attr_autocomplete = [], attr_placeholder = []\<rparr>\<rparr>\<rparr>
     \<lparr>fieldStats = \<lparr>high = 1, medium = 0, low = 0, total = 1\<rparr>,
      overlayMap = [0 \<mapsto> 1], tooltipMap = [0 \<mapsto> 3],
      body = [Element 0 ''input'' [] [] [],
              Element 1 ''div'' [''autofill-detector-overlay'', ''autofill-risk-high''] []
                [Element 2 ''div'' [''autofill-detector-badge'', ''autofill-badge-high''] []
                   [TextNode ''HIGH'']]],
      nextId = 4, sent = []\<rparr>))) = [4] \<and>
   overlayInvariant
     \<lparr>fieldStats = \<lparr>high = 0, medium = 0, low = 0, total = 0\<rparr>,
      overlayMap = Map.empty, tooltipMap = Map.empty,
      body = [Element 0 ''input'' [] [] []], nextId = 1, sent = []\<rparr> \<and>
   overlayIds (body (snd (createOverlay
     \<lparr>element = 0, verdict = \<lparr>riskLevel = High, risks = [],
        attributes = \<lparr>attr_tagName = ''input'', attr_type = ''email'', attr_name = [],
          attr_id = [], attr_autocomplete = [], attr_placeholder = []\<rparr>\<rparr>\<rparr>
     (snd (createOverlay
     \<lparr>element = 0, verdict = \<lparr>riskLevel = High, risks = [],
        attributes = \<lparr>attr_tagName = ''input'', attr_type = ''email'', attr_name = [],
          attr_id = [], attr_autocomplete = [], attr_placeholder = []\<rparr>\<rparr>\<rparr>
     \<lparr>fieldStats = \<lparr>high = 0, medium = 0, low = 0, total = 0\<rparr>,
      overlayMap = Map.empty, tooltipMap = Map.empty,
      body = [Element 0 ''input'' [] [] []], nextId = 1, sent = []\<rparr>))))) = [4]"
proof -
  let ?st = "\<lparr>fieldStats = \<lparr>high = 1, medium = 0, low = 0, total = 1\<rparr>,
      overlayMap = [0 \<mapsto> 1], tooltipMap = [0 \<mapsto> 3],
      body = [Element 0 ''input'' [] [] [],
              Element 1 ''div'' [''autofill-detector-overlay'', ''autofill-risk-high''] []
                [Element 2 ''div'' [''autofill-detector-badge'', ''autofill-badge-high''] []
                   [TextNode ''HIGH'']]],
      nextId = 4, sent = []\<rparr>"
  let ?a = "\<lparr>element = 0, verdict = \<lparr>riskLevel = Medium, risks = [],
        attributes = \<lparr>attr_tagName = ''input'', attr_type = ''text'', attr_name = [],
          attr_id = [], attr_autocomplete = [], attr_placeholder = []\<rparr>\<rparr>\<rparr>"
  let ?empty = "\<lparr>fieldStats = \<lparr>high = 0, medium = 0, low = 0, total = 0\<rparr>,
      overlayMap = Map.empty, tooltipMap = Map.empty,
      body = [Element 0 ''input'' [] [] []], nextId = 1, sent = []\<rparr>"
  let ?b = "\<lparr>element = 0, verdict = \<lparr>riskLevel = High, risks = [],
        attributes = \<lparr>attr_tagName = ''input'', attr_type = ''email'', attr_name = [],
          attr_id = [], attr_autocomplete = [], attr_placeholder = []\<rparr>\<rparr>\<rparr>"
  have ids: "overlayIds (body ?st) = [1]"
    by (simp add: overlayIds_def querySelectorAll_def elementsOf_def)
  have els: "fst ` set (elementsOf (body ?st)) = {0, 1, 2}"
    by (auto simp: elementsOf_def)
  have inv: "overlayInvariant ?st"
    unfolding overlayInvariant_def ids els by (auto simp: ran_def inj_on_def dom_def)
  have ids0: "overlayIds (body ?empty) = []"
    by (simp add: overlayIds_def querySelectorAll_def elementsOf_def)
  have inv0: "overlayInvariant ?empty"
    by (auto simp: overlayInvariant_def overlayIds_def querySelectorAll_def elementsOf_def)
  have e: "element ?a = element ?a" and e0: "element ?b = element ?b" by simp_all
  note t = createOverlay_one_overlay_per_element [OF inv e]
  note t0 = createOverlay_one_overlay_per_element [OF inv0 e0]
  have one: "overlayIds (body (snd (createOverlay ?a ?st))) = [4]"
    using t [THEN conjunct2, THEN conjunct2, THEN conjunct1]
      t [THEN conjunct2, THEN conjunct2, THEN conjunct2, THEN conjunct1]
    by (simp add: createOverlay_fields overlayIds_append overlayIds_def querySelectorAll_def
          elementsOf_def removeElement_def levelName_def)
  have two: "overlayIds (body (snd (createOverlay ?b (snd (createOverlay ?b ?empty))))) = [4]"
    using t0 [THEN conjunct2, THEN conjunct2, THEN conjunct2, THEN conjunct2, THEN conjunct2]
      ids0
    by (simp add: createOverlay_fields)
  show ?thesis using inv one inv0 two by (intro conjI)
qed


section \<open>Properties of payload injection\<close>






section \<open>Properties of the word scanner\<close>

lemma matchAt_Some:
  assumes "matchAt words text i = Some e" and "words \<noteq> []"
  shows "wholeWordOccurrence words text i e"
proof -
  from assms have b: "isWordBoundary text i"
    by (auto simp: matchAt_def split: if_splits)
  from assms obtain w where
    f: "find (\<lambda>w. occursAt text i w \<and> isWordBoundary text (i + length w)) words = Some w"
    and e: "e = i + length w"
    by (auto simp: matchAt_def alternatives_def split: if_splits)
  from f have "w \<in> set words" "occursAt text i w" "isWordBoundary text (i + length w)"
    by (auto simp: find_Some_iff)
  with b e show ?thesis by (auto simp: wholeWordOccurrence_def)
qed

lemma matchAt_None:
  assumes "matchAt words text i = None"
  shows "\<not> wholeWordOccurrence words text i e"
proof
  assume "wholeWordOccurrence words text i e"
  then obtain w where b: "isWordBoundary text i" and w: "w \<in> set words" "occursAt text i w"
    "isWordBoundary text (i + length w)"
    by (auto simp: wholeWordOccurrence_def)
  from w(1) have "alternatives words = words" by (auto simp: alternatives_def)
  with assms b
  have "find (\<lambda>w. occursAt text i w \<and> isWordBoundary text (i + length w)) words = None"
    by (simp add: matchAt_def)
  with w show False by (auto simp: find_None_iff)
qed

lemma find_upt_Some:
  assumes "find P [p ..< n] = Some i"
  shows "p \<le> i" and "i < n" and "P i" and "\<And>j. p \<le> j \<Longrightarrow> j < i \<Longrightarrow> \<not> P j"
proof -
  from assms [unfolded find_Some_iff] obtain k where
    k: "k < length [p ..< n]" "P ([p ..< n] ! k)" "[p ..< n] ! k = i"
      "\<forall>j<k. \<not> P ([p ..< n] ! j)"
    by blast
  from k(1,3) have ik: "i = p + k" and kl: "p + k < n" by simp_all
  show "p \<le> i" using ik by simp
  show "i < n" using ik kl by simp
  show "P i" using k(2,3) by simp
  show "\<not> P j" if "p \<le> j" "j < i" for j
  proof -
    have jk: "j - p < k" using that ik by simp
    then have "[p ..< n] ! (j - p) = j" using that kl by simp
    with k(4) jk show ?thesis by fastforce
  qed
qed

lemma find_upt_None:
  assumes "find P [p ..< n] = None" and "p \<le> j" and "j < n"
  shows "\<not> P j"
  using assms by (auto simp: find_None_iff)

lemma exec_Some:
  assumes "exec words text p = Some (i, e)"
  shows "p \<le> i" and "i \<le> length text" and "matchAt words text i = Some e"
    and "\<And>j. p \<le> j \<Longrightarrow> j < i \<Longrightarrow> matchAt words text j = None"
proof -
  from assms obtain i' where
    f: "find (\<lambda>i. matchAt words text i \<noteq> None) [p ..< Suc (length text)] = Some i'"
    and m: "map_option (Pair i') (matchAt words text i') = Some (i, e)"
    by (auto simp: exec_def split: option.splits)
  from m have ii: "i' = i" and me: "matchAt words text i = Some e" by auto
  note fs = find_upt_Some [OF f [unfolded ii]]
  show "p \<le> i" by (rule fs(1))
  show "i \<le> length text" using fs(2) by simp
  show "matchAt words text i = Some e" by (rule me)
  show "matchAt words text j = None" if "p \<le> j" "j < i" for j
    using fs(4) [OF that] by simp
qed

lemma exec_None:
  assumes "exec words text p = None" and "p \<le> j" and "j \<le> length text"
  shows "matchAt words text j = None"
proof -
  have "find (\<lambda>i. matchAt words text i \<noteq> None) [p ..< Suc (length text)] = None"
  proof (cases "find (\<lambda>i. matchAt words text i \<noteq> None) [p ..< Suc (length text)]")
    case None
    then show ?thesis .
  next
    case (Some i)
    then have "matchAt words text i \<noteq> None" by (auto simp: find_Some_iff)
    with assms(1) Some show ?thesis by (auto simp: exec_def)
  qed
  from find_upt_None [OF this assms(2)] assms(3) show ?thesis by simp
qed

lemma occurrence_bounds:
  assumes "wholeWordOccurrence words text s e" and "\<forall>w \<in> set words. w \<noteq> []"
  shows "s < e" and "e \<le> length text"
  using assms by (auto simp: wholeWordOccurrence_def occursAt_def)

lemma highlightRuns_append:
  "highlightRuns k (xs @ ys) =
     highlightRuns k xs @ highlightRuns (k + length (concat (map textContent xs))) ys"
proof (induction xs arbitrary: k)
  case Nil
  then show ?case by simp
next
  case (Cons x xs)
  then show ?case by (cases x) (simp_all add: add.assoc)
qed

lemma slice_append: "a \<le> b \<Longrightarrow> b \<le> c \<Longrightarrow> slice t a b @ slice t b c = slice t a c"
proof -
  assume ab: "a \<le> b" and bc: "b \<le> c"
  have "take (b - a) (drop a t) @ take (c - b) (drop (b - a) (drop a t)) =
          take ((b - a) + (c - b)) (drop a t)"
    by (simp add: take_add)
  then show ?thesis using ab bc by (simp add: slice_def)
qed

lemma take_slice: "a \<le> b \<Longrightarrow> take a t @ slice t a b = take b t"
proof -
  assume ab: "a \<le> b"
  have "take a t @ take (b - a) (drop a t) = take (a + (b - a)) t" by (simp add: take_add)
  then show ?thesis using ab by (simp add: slice_def)
qed

lemma length_slice: "b \<le> length t \<Longrightarrow> length (slice t a b) = b - a"
  by (simp add: slice_def)

lemma slice_self: "slice t a a = []"
  by (simp add: slice_def)

lemma scanInvariant_init: "scanInvariant words text 0 []"
  by (simp add: scanInvariant_def)

lemma highlightRuns_step:
  assumes "p \<le> i" and "i \<le> e" and "e \<le> length text"
  shows "highlightRuns p ((if i > p then [TextNode (slice text p i)] else []) @
                           [highlightSpan n (slice text i e)]) = [(i, e)]"
    and "concat (map textContent ((if i > p then [TextNode (slice text p i)] else []) @
                           [highlightSpan n (slice text i e)])) = slice text p e"
proof -
  have li: "length (slice text p i) = i - p" using assms by (simp add: length_slice)
  have le: "length (slice text i e) = e - i" using assms by (simp add: length_slice)
  show "highlightRuns p ((if i > p then [TextNode (slice text p i)] else []) @
                           [highlightSpan n (slice text i e)]) = [(i, e)]"
    using assms li le by (auto simp: highlightSpan_def)
  show "concat (map textContent ((if i > p then [TextNode (slice text p i)] else []) @
                           [highlightSpan n (slice text i e)])) = slice text p e"
  proof (cases "i > p")
    case True
    then show ?thesis using slice_append [of p i e "text"] assms by (simp add: highlightSpan_def)
  next
    case False
    then have "i = p" using assms by simp
    then show ?thesis by (simp add: highlightSpan_def)
  qed
qed

lemma scanInvariant_step:
  assumes nonempty: "words \<noteq> []" and ne: "\<forall>w \<in> set words. w \<noteq> []"
    and inv: "scanInvariant words text p frags"
    and ex: "exec words text p = Some (i, e)"
  shows "p < e"
    and "scanInvariant words text e
           (frags @ (if i > p then [TextNode (slice text p i)] else []) @
                    [highlightSpan n (slice text i e)])"
proof -
  note es = exec_Some [OF ex]
  have occ: "wholeWordOccurrence words text i e" using es(3) nonempty by (rule matchAt_Some)
  note ob = occurrence_bounds [OF occ ne]
  show pe: "p < e" using es(1) ob(1) by simp
  let ?new = "(if i > p then [TextNode (slice text p i)] else []) @
              [highlightSpan n (slice text i e)]"
  have ple: "p \<le> length text" and tc: "concat (map textContent frags) = take p text"
    and runs: "\<forall>r \<in> set (highlightRuns 0 frags).
         fst r < snd r \<and> snd r \<le> p \<and> wholeWordOccurrence words text (fst r) (snd r)"
    and srt: "sorted_wrt (\<lambda>a b. snd a \<le> fst b) (highlightRuns 0 frags)"
    and cov: "\<forall>i e. i < p \<longrightarrow> wholeWordOccurrence words text i e \<longrightarrow>
         (\<exists>r \<in> set (highlightRuns 0 frags). fst r \<le> i \<and> i < snd r)"
    using inv by (simp_all add: scanInvariant_def)
  have ie: "i \<le> e" using ob(1) by simp
  note st = highlightRuns_step [OF es(1) ie ob(2), of n]
  have len: "length (concat (map textContent frags)) = p" using tc ple by simp
  have e1: "highlightRuns 0 (frags @ ?new) =
      highlightRuns 0 frags @ highlightRuns (0 + length (concat (map textContent frags))) ?new"
    by (rule highlightRuns_append)
  have e2: "0 + length (concat (map textContent frags)) = p" using len by simp
  have r': "highlightRuns 0 (frags @ ?new) = highlightRuns 0 frags @ [(i, e)]"
    unfolding e1 e2 st(1) by (rule refl)
  have t': "concat (map textContent (frags @ ?new)) = take e text"
    using tc st(2) take_slice [of p e "text"] pe by simp
  have a: "\<forall>r \<in> set (highlightRuns 0 (frags @ ?new)).
         fst r < snd r \<and> snd r \<le> e \<and> wholeWordOccurrence words text (fst r) (snd r)"
    unfolding r' using runs occ ob(1) pe by fastforce
  have b: "sorted_wrt (\<lambda>a b. snd a \<le> fst b) (highlightRuns 0 (frags @ ?new))"
    unfolding r' using srt runs es(1) by (fastforce simp: sorted_wrt_append)
  have c: "\<forall>j e'. j < e \<longrightarrow> wholeWordOccurrence words text j e' \<longrightarrow>
         (\<exists>r \<in> set (highlightRuns 0 (frags @ ?new)). fst r \<le> j \<and> j < snd r)"
  proof (intro allI impI)
    fix j e' assume je: "j < e" and o: "wholeWordOccurrence words text j e'"
    consider "j < p" | "p \<le> j" "j < i" | "i \<le> j" by linarith
    then show "\<exists>r \<in> set (highlightRuns 0 (frags @ ?new)). fst r \<le> j \<and> j < snd r"
    proof cases
      case 1
      then show ?thesis using cov o unfolding r' by fastforce
    next
      case 2
      then have "matchAt words text j = None" by (rule es(4))
      then show ?thesis using matchAt_None o by blast
    next
      case 3
      then show ?thesis using je unfolding r' by simp
    qed
  qed
  show "scanInvariant words text e (frags @ ?new)"
    unfolding scanInvariant_def using ob(2) t' a b c by blast
qed

lemma highlightLoop_terminates:
  assumes nonempty: "words \<noteq> []" and ne: "\<forall>w \<in> set words. w \<noteq> []"
  shows "scanInvariant words text p frags \<Longrightarrow>
         \<exists>frags' L st'. highlightLoop words text p p frags st = Some (frags', L, st') \<and>
            scanInvariant words text L frags' \<and> exec words text L = None"
proof (induction "length text - p" arbitrary: p frags st rule: less_induct)
  case less
  show ?case
  proof (cases "exec words text p")
    case None
    then have "highlightLoop words text p p frags st = Some (frags, p, st)"
      by (subst highlightLoop.simps) simp
    then show ?thesis using less.prems None by blast
  next
    case (Some m)
    obtain i e where m: "m = (i, e)" by (cases m)
    note ex = Some [unfolded m]
    let ?frags = "frags @ (if i > p then [TextNode (slice text p i)] else []) @
                    [highlightSpan (freshId st) (slice text i e)]"
    let ?st = "st\<lparr>wordScannerHighlights := wordScannerHighlights st @ [freshId st],
                freshId := Suc (freshId st)\<rparr>"
    note step1 = scanInvariant_step(1) [OF nonempty ne less.prems ex]
    note step2 = scanInvariant_step(2) [OF nonempty ne less.prems ex, of "freshId st"]
    have "e \<le> length text" using step2 by (simp add: scanInvariant_def)
    then have "length text - e < length text - p" using step1 by simp
    from less.hyps [OF this step2, of ?st]
    obtain frags' L st' where
      r: "highlightLoop words text e e ?frags ?st = Some (frags', L, st')"
        "scanInvariant words text L frags'" "exec words text L = None"
      by blast
    have "highlightLoop words text p p frags st = highlightLoop words text e e ?frags ?st"
      by (subst highlightLoop.simps) (simp add: ex)
    then show ?thesis using r by simp
  qed
qed

lemma highlightRuns_trailing_text: "highlightRuns k (xs @ [TextNode s]) = highlightRuns k xs"
  by (simp add: highlightRuns_append)


text \<open>
  What the loop and the trailing-text step leave, for a non-empty list of non-empty words.
\<close>

lemma highlight_fragments:
  assumes nonempty: "words \<noteq> []" and ne: "\<forall>w \<in> set words. w \<noteq> []"
  shows "\<exists>children st'.
           highlightForbiddenWordsInNode words preceding text following st =
             Some (preceding @ children @ following, st') \<and>
           concat (map textContent children) = text \<and>
           (\<forall>r \<in> set (highlightRuns 0 children).
              fst r < snd r \<and> wholeWordOccurrence words text (fst r) (snd r)) \<and>
           sorted_wrt (\<lambda>a b. snd a \<le> fst b) (highlightRuns 0 children) \<and>
           (\<forall>i e. wholeWordOccurrence words text i e \<longrightarrow>
              (\<exists>r \<in> set (highlightRuns 0 children). fst r \<le> i \<and> i < snd r))"
proof -
  from highlightLoop_terminates [OF nonempty ne scanInvariant_init, of "text" st]
  obtain frags L st' where
    loop: "highlightLoop words text 0 0 [] st = Some (frags, L, st')"
    and inv: "scanInvariant words text L frags" and fin: "exec words text L = None"
    by blast
  define tail where
    "tail = (if L < length text then [TextNode (slice text L (length text))] else [])"
  define children where "children = (if frags @ tail \<noteq> [] then frags @ tail else [TextNode text])"
  have ple: "L \<le> length text" and tc: "concat (map textContent frags) = take L text"
    and runs: "\<forall>r \<in> set (highlightRuns 0 frags).
         fst r < snd r \<and> snd r \<le> L \<and> wholeWordOccurrence words text (fst r) (snd r)"
    and srt: "sorted_wrt (\<lambda>a b. snd a \<le> fst b) (highlightRuns 0 frags)"
    and cov: "\<forall>i e. i < L \<longrightarrow> wholeWordOccurrence words text i e \<longrightarrow>
         (\<exists>r \<in> set (highlightRuns 0 frags). fst r \<le> i \<and> i < snd r)"
    using inv by (simp_all add: scanInvariant_def)
  have res: "highlightForbiddenWordsInNode words preceding text following st =
               Some (preceding @ children @ following, st')"
    by (simp add: highlightForbiddenWordsInNode_def loop Let_def tail_def children_def)
  have rt: "highlightRuns 0 (frags @ tail) = highlightRuns 0 frags"
    by (simp add: tail_def highlightRuns_trailing_text)
  have tt: "concat (map textContent (frags @ tail)) = text"
  proof (cases "L < length text")
    case True
    then show ?thesis using tc take_slice [of L "length text" "text"] by (simp add: tail_def)
  next
    case False
    then show ?thesis using tc ple by (simp add: tail_def)
  qed
  have empty: "frags @ tail = [] \<Longrightarrow> text = []" using tt by simp
  have rc: "highlightRuns 0 children = highlightRuns 0 frags"
    using rt by (simp add: children_def)
  have t: "concat (map textContent children) = text"
    using tt empty by (simp add: children_def)
  have all: "\<exists>r \<in> set (highlightRuns 0 frags). fst r \<le> i \<and> i < snd r"
    if o: "wholeWordOccurrence words text i e" for i e
  proof (cases "i < L")
    case True
    then show ?thesis using cov o by blast
  next
    case False
    have "i \<le> length text" using occurrence_bounds [OF o ne] by simp
    then have "matchAt words text i = None" using exec_None [OF fin] False by simp
    then show ?thesis using matchAt_None o by blast
  qed
  have "highlightForbiddenWordsInNode words preceding text following st =
             Some (preceding @ children @ following, st') \<and>
           concat (map textContent children) = text \<and>
           (\<forall>r \<in> set (highlightRuns 0 children).
              fst r < snd r \<and> wholeWordOccurrence words text (fst r) (snd r)) \<and>
           sorted_wrt (\<lambda>a b. snd a \<le> fst b) (highlightRuns 0 children) \<and>
           (\<forall>i e. wholeWordOccurrence words text i e \<longrightarrow>
              (\<exists>r \<in> set (highlightRuns 0 children). fst r \<le> i \<and> i < snd r))"
    unfolding rc using res t runs srt all by (intro conjI) blast+
  then show ?thesis by (intro exI)
qed

lemma textContent_replaceIn: "textContent (replaceIn i n) = textContent n"
proof (induction n)
  case (TextNode s)
  then show ?case by simp
next
  case (Element j tg cl ti cs)
  have "map textContent (map (replaceIn i) cs) = map textContent cs"
    using Element by simp
  then show ?case by (simp del: map_map)
qed

lemma textContent_replaceByText:
  "concat (map textContent (replaceByText i ns)) = concat (map textContent ns)"
  by (simp add: replaceByText_def textContent_replaceIn comp_def)

lemma textContent_fold_replaceByText:
  "concat (map textContent (fold replaceByText ids ns)) = concat (map textContent ns)"
  by (induction ids arbitrary: ns) (simp_all add: textContent_replaceByText)

lemma textContent_removeWordHighlights:
  "concat (map textContent (fst (removeWordHighlights ns st))) = concat (map textContent ns)"
  by (simp add: removeWordHighlights_def Let_def textContent_fold_replaceByText)

text \<open>With the empty word in the list the loop finds the empty match at index 0 for ever.\<close>

lemma exec_empty_word: "exec [[]] ''a'' 0 = Some (0, 0)"
  by code_simp

lemma highlightLoop_diverges_aux:
  assumes "highlightLoop ws t p l frags st = Some r"
  shows "\<not> (ws = [[]] \<and> t = ''a'' \<and> p = 0)"
proof (rule highlightLoop.raw_induct
    [where P = "\<lambda>ws t p l frags st r. \<not> (ws = [[]] \<and> t = ''a'' \<and> p = 0)", OF _ assms],
    goal_cases)
  case (1 loop ws t p l frags st r)
  show ?case
  proof
    assume s: "ws = [[]] \<and> t = ''a'' \<and> p = 0"
    then have "exec ws t p = Some (0, 0)" using exec_empty_word by simp
    with 1(2) obtain frags' st' where "loop ws t 0 0 frags' st' = Some r"
      by simp
    from 1(1) [OF this] s show False by simp
  qed
qed

lemma highlightLoop_diverges: "highlightLoop [[]] ''a'' 0 0 [] st = None"
proof (cases "highlightLoop [[]] ''a'' 0 0 [] st")
  case None
  then show ?thesis .
next
  case (Some r)
  from highlightLoop_diverges_aux [OF this] show ?thesis by simp
qed









text \<open>
  The letters beyond ASCII fold their case as well: the word \<open>na\<close>, U+00EF, \<open>ve\<close>
  is found in the text that spells it with capital letters.
\<close>

lemma latin1_letter_case_ignored:
  "highlightForbiddenWordsInNode [''na'' @ [CHR 0xEF] @ ''ve''] []
     (''a NA'' @ [CHR 0xCF] @ ''VE b'') [] \<lparr>wordScannerHighlights = [], freshId = 0\<rparr> =
     Some ([TextNode ''a '', highlightSpan 0 (''NA'' @ [CHR 0xCF] @ ''VE''), TextNode '' b''],
           \<lparr>wordScannerHighlights = [0], freshId = 1\<rparr>) \<and>
   highlightRuns 0
     [TextNode ''a '', highlightSpan 0 (''NA'' @ [CHR 0xCF] @ ''VE''), TextNode '' b''] =
     [(2, 7)]"
  by code_simp

text \<open>
  A listed word that ends with a character that is no word character lies outside the
  theorem on whole words below.  On its own between two spaces it has no word boundary
  after it, and the pattern does not match it.
\<close>

lemma word_with_nonword_edge:
  "standaloneOccurrence [''c++''] ''use c++ now'' 4 7 \<and>
   highlightForbiddenWordsInNode [''c++''] [] ''use c++ now'' []
     \<lparr>wordScannerHighlights = [], freshId = 0\<rparr> =
     Some ([TextNode ''use c++ now''], \<lparr>wordScannerHighlights = [], freshId = 0\<rparr>)"
  by code_simp




text \<open>
  Claim C4, as stated, fails: with the empty word in the list the highlighting of the text
  \<open>a\<close> never returns, so there is no container to compare.
\<close>

theorem empty_word_never_returns:
  "highlightForbiddenWordsInNode [[]] [] ''a'' [] \<lparr>wordScannerHighlights = [], freshId = 0\<rparr> =
   None"
  by (simp add: highlightForbiddenWordsInNode_def highlightLoop_diverges)

text \<open>
  Claim C4, amended.  For every text node, with any siblings before and after it, and every
  non-empty list of non-empty words, \<open>highlightForbiddenWordsInNode\<close> returns, and after it as
  well as after the \<open>removeWordHighlights\<close> that follows, the concatenated text of the
  container is the text of the siblings before, the original text of the node, and the
  text of the siblings after; for a node without siblings it is the original text.
\<close>

theorem highlight_then_remove_restores_text:
  assumes "words \<noteq> []" and "\<forall>w \<in> set words. w \<noteq> []"
  shows "\<exists>children st'.
           highlightForbiddenWordsInNode words preceding text following st =
             Some (children, st') \<and>
           concat (map textContent children) =
             concat (map textContent preceding) @ text @ concat (map textContent following) \<and>
           concat (map textContent (fst (removeWordHighlights children st'))) =
             concat (map textContent preceding) @ text @ concat (map textContent following) \<and>
           wordScannerHighlights (snd (removeWordHighlights children st')) = []"
proof -
  from highlight_fragments [OF assms, of preceding "text" following st]
  obtain children st' where
    res: "highlightForbiddenWordsInNode words preceding text following st =
            Some (preceding @ children @ following, st')"
    and t: "concat (map textContent children) = text"
    by auto
  have a: "concat (map textContent (preceding @ children @ following)) =
             concat (map textContent preceding) @ text @ concat (map textContent following)"
    using t by simp
  have b: "concat (map textContent
             (fst (removeWordHighlights (preceding @ children @ following) st'))) =
           concat (map textContent preceding) @ text @ concat (map textContent following)"
    unfolding textContent_removeWordHighlights by (rule a)
  have c: "wordScannerHighlights (snd (removeWordHighlights (preceding @ children @ following) st')) = []"
    by (simp add: removeWordHighlights_def Let_def)
  from res a b c show ?thesis by blast
qed

theorem highlight_then_remove_restores_text_witness:
  "[''partner''] \<noteq> [] \<and> ''partner'' \<noteq> [] \<and>
   highlightForbiddenWordsInNode [''partner''] [] ''Hello partner world'' []
     \<lparr>wordScannerHighlights = [], freshId = 0\<rparr> =
     Some ([TextNode ''Hello '', highlightSpan 0 ''partner'', TextNode '' world''],
           \<lparr>wordScannerHighlights = [0], freshId = 1\<rparr>) \<and>
   fst (removeWordHighlights
          [TextNode ''Hello '', highlightSpan 0 ''partner'', TextNode '' world'']
          \<lparr>wordScannerHighlights = [0], freshId = 1\<rparr>) =
     [TextNode ''Hello '', TextNode ''partner'', TextNode '' world''] \<and>
   concat (map textContent (fst (removeWordHighlights
          [TextNode ''Hello '', highlightSpan 0 ''partner'', TextNode '' world'']
          \<lparr>wordScannerHighlights = [0], freshId = 1\<rparr>))) = ''Hello partner world''"
proof -
  let ?st = "\<lparr>wordScannerHighlights = [], freshId = 0\<rparr>"
  let ?c = "[TextNode ''Hello '', highlightSpan 0 ''partner'', TextNode '' world'']"
  let ?st' = "\<lparr>wordScannerHighlights = [0], freshId = 1\<rparr>"
  have h0: "[''partner''] \<noteq> []" by simp
  have h: "\<forall>w \<in> set [''partner'']. w \<noteq> []" by simp
  have ev: "highlightForbiddenWordsInNode [''partner''] [] ''Hello partner world'' [] ?st =
      Some (?c, ?st')"
    by code_simp
  have rm: "fst (removeWordHighlights ?c ?st') =
      [TextNode ''Hello '', TextNode ''partner'', TextNode '' world'']"
    by code_simp
  from highlight_then_remove_restores_text [OF h0 h, of "[]" "''Hello partner world''" "[]" ?st] ev
  have "concat (map textContent (fst (removeWordHighlights ?c ?st'))) = ''Hello partner world''"
    by auto
  with ev rm show ?thesis by simp
qed

end
